theory Spec2Isabelle
  imports Complex_Main
begin

section \<open>Data model of the contract dependency services\<close>

text \<open>
  The development embeds \<^verbatim>\<open>contractDependencyDetectionService.ts\<close> and
  \<^verbatim>\<open>contractDependencyWatcherService.ts\<close>. JavaScript strings are \<open>string\<close>,
  arrays are lists, a \<^verbatim>\<open>Map\<close> is an association list in insertion order with
  unique keys, a \<^verbatim>\<open>Set\<close> whose order is never observed is a HOL set, numbers that
  count things are \<open>nat\<close> and wall-clock milliseconds are \<open>int\<close>.
\<close>

subsection \<open>Maps in insertion order\<close>

text \<open>
  \<^verbatim>\<open>Map.prototype.set\<close>: an existing key keeps its position and gets the new
  value, a new key is appended. \<^verbatim>\<open>Map.prototype.get\<close> is \<open>map_of\<close>.
\<close>

fun mapSet :: "'k \<Rightarrow> 'v \<Rightarrow> ('k \<times> 'v) list \<Rightarrow> ('k \<times> 'v) list" where
  "mapSet k v [] = [(k, v)]"
| "mapSet k v (p # m) = (if fst p = k then (k, v) # m else p # mapSet k v m)"

text \<open>
  Mutating the object stored under a key (\<^verbatim>\<open>m.get(k).field = ...\<close>): the entry keeps
  its key and position.
\<close>

definition mapModify :: "'k \<Rightarrow> ('v \<Rightarrow> 'v) \<Rightarrow> ('k \<times> 'v) list \<Rightarrow> ('k \<times> 'v) list" where
  "mapModify k f m = map (\<lambda>p. if fst p = k then (fst p, f (snd p)) else p) m"

text \<open>
  Object spread \<^verbatim>\<open>{...a, ...b}\<close>: the keys of \<open>b\<close> override those of \<open>a\<close>. An object
  is an association list with unique keys; the order in which JavaScript enumerates keys
  that look like integers is not modelled, and nothing below depends on the order.
\<close>

definition objectSpread :: "('k \<times> 'v) list \<Rightarrow> ('k \<times> 'v) list \<Rightarrow> ('k \<times> 'v) list" where
  "objectSpread a b = fold (\<lambda>p m. mapSet (fst p) (snd p) m) b a"

subsection \<open>Strings\<close>

text \<open>
  \<^verbatim>\<open>String.prototype.toLowerCase\<close> on the ASCII letters; the model's characters are
  bytes, so letters outside ASCII are left as they are.
\<close>

definition lowerChar :: "char \<Rightarrow> char" where
  "lowerChar c =
     (let n = (of_char c :: nat)
      in if 65 \<le> n \<and> n \<le> 90 then char_of (n + 32) else c)"

definition toLowerCase :: "string \<Rightarrow> string" where
  "toLowerCase s = map lowerChar s"

text \<open>
  \<^verbatim>\<open>normalizePath(p) = p.replace(/\\/g, '/').replace(/\/$/, '')\<close>: every backslash
  becomes a slash, then one trailing slash is dropped.
\<close>

definition normalizePath :: "string \<Rightarrow> string" where
  "normalizePath p =
     (let q = map (\<lambda>c. if c = CHR 0x5C then CHR ''/'' else c) p
      in if q \<noteq> [] \<and> last q = CHR ''/'' then butlast q else q)"

subsection \<open>Records of the source\<close>

text \<open>
  \<^verbatim>\<open>CargoDependency\<close> and \<^verbatim>\<open>ContractMetadata\<close> are declared in
  \<^verbatim>\<open>contractMetadataService.ts\<close>; the fields are the ones the detection service and
  its test read. The manifest's \<^verbatim>\<open>dependencies\<close> object is the field
  \<open>cargoDependencies\<close> (the node record below owns the name \<open>dependencies\<close>).
\<close>

record CargoDependency =
  cargoDepName :: string
  cargoDepPath :: "string option"
  cargoDepVersion :: "string option"
  cargoDepWorkspace :: bool

record ContractMetadata =
  contractName :: string
  cargoTomlPath :: string
  contractDir :: string
  cargoDependencies :: "(string \<times> CargoDependency) list"
  buildDependencies :: "(string \<times> CargoDependency) list"
  devDependencies :: "(string \<times> CargoDependency) list"

datatype ImportType = Use | ExternCrate | Mod

record ImportDependency =
  sourceContract :: string
  importedModule :: string
  importType :: ImportType
  sourceFile :: string
  lineNumber :: nat
  statement :: string

text \<open>
  \<^verbatim>\<open>DependencyEdge\<close> comes from \<^verbatim>\<open>deploymentDependencyResolver.ts\<close>; the
  enhanced edge extends it.
\<close>

record DependencyEdge =
  edgeFrom :: string
  edgeTo :: string
  reason :: string
  dependencyName :: string

datatype EdgeSource = Cargo | Import | Both

record EnhancedDependencyEdge = DependencyEdge +
  source :: EdgeSource
  edgeImports :: "ImportDependency list option"
  edgeIsExternal :: bool
  cargoMetadata :: "CargoDependency option"

record DependencyNode =
  name :: string
  nodeCargoTomlPath :: string
  nodeContractDir :: string
  dependencies :: "string list"
  dependents :: "string list"
  isExternal :: bool
  dependencyCount :: nat
  dependentCount :: nat
  depth :: nat

type_synonym NodeMap = "(string \<times> DependencyNode) list"

record DependencyGraphStatistics =
  totalContracts :: nat
  totalDependencies :: nat
  externalDependencyCount :: nat
  circularDependencies :: nat
  maxDepth :: nat
  avgDependenciesPerContract :: rat
  leafContracts :: nat
  rootContracts :: nat

record DependencyGraph =
  nodes :: NodeMap
  edges :: "EnhancedDependencyEdge list"
  graphImports :: "ImportDependency list"
  cycles :: "string list list"
  deploymentOrder :: "string list"
  deploymentLevels :: "string list list"
  externalDependencies :: "string set"
  workspaceContracts :: "string set"
  statistics :: DependencyGraphStatistics

text \<open>
  The result of \<^verbatim>\<open>resolveDeploymentDependencies\<close>. The resolver is not part of the
  sources at hand, so every function that calls it takes it as a parameter.
\<close>

record DependencyResolutionResult =
  resEdges :: "DependencyEdge list"
  resCycles :: "string list list"
  resOrder :: "string list"
  resLevels :: "string list list"

type_synonym Resolver = "ContractMetadata list \<Rightarrow> bool \<Rightarrow> DependencyResolutionResult"

record DependencyDetectionOptions =
  includeDevDependencies :: bool
  includeBuildDependencies :: bool
  detectImports :: bool
  maxSourceDepth :: int
  sourceExtensions :: "string list"

text \<open>The defaults that \<^verbatim>\<open>buildDependencyGraph\<close> spreads the caller's options over.\<close>

definition defaultOptions :: DependencyDetectionOptions where
  "defaultOptions =
     \<lparr>includeDevDependencies = False, includeBuildDependencies = True,
      detectImports = True, maxSourceDepth = 3, sourceExtensions = [''.rs'']\<rparr>"

section \<open>Depth of the nodes\<close>

text \<open>\<^verbatim>\<open>Math.max\<close> of a non-empty argument list of non-negative numbers.\<close>

definition mathMax :: "nat list \<Rightarrow> nat" where
  "mathMax xs = fold max xs 0"

definition setDepth :: "string \<Rightarrow> nat \<Rightarrow> NodeMap \<Rightarrow> NodeMap" where
  "setDepth k d ns = mapModify k (\<lambda>n. n\<lparr>depth := d\<rparr>) ns"

text \<open>
  The closure \<^verbatim>\<open>calculateDepth\<close> of \<^verbatim>\<open>calculateDepths\<close>. It reads and writes
  the \<^verbatim>\<open>visited\<close> set and the \<^verbatim>\<open>depth\<close> field of the nodes, so both are passed
  in and returned. \<open>calculateDepthMap\<close> is the callback of
  \<^verbatim>\<open>node.dependencies.map((dep) => calculateDepth(dep))\<close>, left to right.
\<close>

function calculateDepth :: "string \<Rightarrow> string list \<Rightarrow> NodeMap \<Rightarrow> nat \<times> string list \<times> NodeMap"
  and calculateDepthMap :: "string list \<Rightarrow> string list \<Rightarrow> NodeMap \<Rightarrow> nat list \<times> string list \<times> NodeMap"
where
  "calculateDepth nodeName visited ns =
     (if nodeName \<in> set visited
      then ((case map_of ns nodeName of Some n \<Rightarrow> depth n | None \<Rightarrow> 0), visited, ns)
      else (case map_of ns nodeName of
              None \<Rightarrow> (0, visited @ [nodeName], ns)
            | Some node \<Rightarrow>
                if dependencies node = []
                then (0, visited @ [nodeName], setDepth nodeName 0 ns)
                else (case calculateDepthMap (dependencies node) (visited @ [nodeName]) ns of
                        (ds, visited', ns') \<Rightarrow>
                          (mathMax ds + 1, visited', setDepth nodeName (mathMax ds + 1) ns'))))"
| "calculateDepthMap [] visited ns = ([], visited, ns)"
| "calculateDepthMap (dep # deps) visited ns =
     (case calculateDepth dep visited ns of
        (d, visited', ns') \<Rightarrow>
          (case calculateDepthMap deps visited' ns' of
             (ds, visited'', ns'') \<Rightarrow> (d # ds, visited'', ns'')))"
  by pat_completeness auto

lemma map_fst_mapModify: "map fst (mapModify k f m) = map fst m"
  by (induction m) (auto simp: mapModify_def)

lemma map_fst_setDepth: "map fst (setDepth k d ns) = map fst ns"
  by (simp add: setDepth_def map_fst_mapModify)

lemma calculateDepth_dom_grows:
  "calculateDepth_calculateDepthMap_dom (Inl (n, vis, ns)) \<Longrightarrow>
     calculateDepth n vis ns = (d, vis', ns') \<Longrightarrow>
     set vis \<subseteq> set vis' \<and> map fst ns' = map fst ns"
  "calculateDepth_calculateDepthMap_dom (Inr (ds, vis, ns)) \<Longrightarrow>
     calculateDepthMap ds vis ns = (xs, vis', ns') \<Longrightarrow>
     set vis \<subseteq> set vis' \<and> map fst ns' = map fst ns"
proof (induction n vis ns and ds vis ns arbitrary: d vis' ns' and xs vis' ns'
    rule: calculateDepth_calculateDepthMap.pinduct)
  case (1 nodeName visited ns)
  show ?case
  proof (cases "nodeName \<in> set visited")
    case True
    with 1 show ?thesis by (simp add: calculateDepth.psimps)
  next
    case False
    show ?thesis
    proof (cases "map_of ns nodeName")
      case None
      with 1 False show ?thesis by (auto simp: calculateDepth.psimps)
    next
      case (Some node)
      show ?thesis
      proof (cases "dependencies node = []")
        case True
        with 1 False Some show ?thesis
          by (auto simp: calculateDepth.psimps map_fst_setDepth)
      next
        case nonempty: False
        obtain ds v1 n1 where r: "calculateDepthMap (dependencies node) (visited @ [nodeName]) ns = (ds, v1, n1)"
          by (cases "calculateDepthMap (dependencies node) (visited @ [nodeName]) ns") auto
        from "1.IH"[OF False Some nonempty r]
        have "set (visited @ [nodeName]) \<subseteq> set v1" "map fst n1 = map fst ns" by auto
        with 1(1,3) False Some nonempty r show ?thesis
          by (auto simp: calculateDepth.psimps map_fst_setDepth)
      qed
    qed
  qed
next
  case (2 visited ns)
  then show ?case by (simp add: calculateDepthMap.psimps)
next
  case (3 dep deps visited ns)
  obtain d1 v1 n1 where r1: "calculateDepth dep visited ns = (d1, v1, n1)"
    by (cases "calculateDepth dep visited ns") auto
  obtain d2 v2 n2 where r2: "calculateDepthMap deps v1 n1 = (d2, v2, n2)"
    by (cases "calculateDepthMap deps v1 n1") auto
  from "3.IH"(1)[OF r1] have a: "set visited \<subseteq> set v1" "map fst n1 = map fst ns" by auto
  from "3.IH"(2)[OF r1[symmetric] refl r2] have b: "set v1 \<subseteq> set v2" "map fst n2 = map fst n1" by auto
  from 3(1,4) r1 r2 a b show ?case
    by (auto simp: calculateDepthMap.psimps)
qed

lemma card_diff_visit:
  "k \<in> set (map fst ns) \<Longrightarrow> k \<notin> set vis \<Longrightarrow>
     card (set (map fst ns) - set (vis @ [k])) < card (set (map fst ns) - set vis)"
proof -
  assume a: "k \<in> set (map fst ns)" "k \<notin> set vis"
  have "set (map fst ns) - set (vis @ [k]) \<subset> set (map fst ns) - set vis"
    using a by auto
  then show ?thesis by (intro psubset_card_mono) auto
qed

text \<open>
  Every call terminates: each nested call either marks a key of the map that was not
  yet visited, or works on a shorter list with no fewer marks.
\<close>

lemma calculateDepth_total: "calculateDepth_calculateDepthMap_dom x"
proof -
  let ?m = "\<lambda>x. case x of
        Inl (n, vis, ns) \<Rightarrow> (card (set (map fst ns) - set vis), 0::nat)
      | Inr (ds, vis, ns) \<Rightarrow> (card (set (map fst ns) - set vis), Suc (length ds))"
  let ?R = "inv_image (less_than <*lex*> less_than) ?m"
  have "All calculateDepth_calculateDepthMap_dom"
  proof (rule "calculateDepth_calculateDepthMap.termination" [of ?R])
    show "wf ?R" by blast
  next
    fix nodeName :: string and visited :: "string list" and ns :: NodeMap and x2
    assume "nodeName \<notin> set visited" "map_of ns nodeName = Some x2"
    then have "card (set (map fst ns) - set (visited @ [nodeName])) < card (set (map fst ns) - set visited)"
      by (intro card_diff_visit) (auto dest: map_of_SomeD simp: rev_image_eqI)
    then show "(Inr (dependencies x2, visited @ [nodeName], ns), Inl (nodeName, visited, ns)) \<in> ?R"
      by simp
  next
    fix dep :: string and deps :: "string list" and visited :: "string list" and ns :: NodeMap
    show "(Inl (dep, visited, ns), Inr (dep # deps, visited, ns)) \<in> ?R"
      by simp
  next
    fix dep :: string and deps :: "string list" and visited :: "string list" and ns :: NodeMap
      and x :: nat and y xa ya
    assume r: "(x, y) = calculateDepth dep visited ns" "(xa, ya) = y"
      and d: "calculateDepth_calculateDepthMap_dom (Inl (dep, visited, ns))"
    from r have "calculateDepth dep visited ns = (x, xa, ya)" by simp
    from calculateDepth_dom_grows(1)[OF d this]
    have g: "set visited \<subseteq> set xa" "map fst ya = map fst ns" by auto
    have "card (set (map fst ns) - set xa) \<le> card (set (map fst ns) - set visited)"
      using g(1) by (intro card_mono) auto
    moreover have "set (map fst ya) = set (map fst ns)" using g(2) by simp
    ultimately have "card (set (map fst ya) - set xa) \<le> card (set (map fst ns) - set visited)"
      by simp
    then show "(Inr (deps, xa, ya), Inr (dep # deps, visited, ns)) \<in> ?R"
      by auto
  qed
  then show ?thesis by blast
qed

termination calculateDepth
  using calculateDepth_total by blast

text \<open>
  \<^verbatim>\<open>calculateDepths\<close>: a fresh \<^verbatim>\<open>visited\<close> set, then one call per key of the
  map, in insertion order; the results of the calls are discarded.
\<close>

definition calculateDepthsLoop :: "string list \<Rightarrow> string list \<times> NodeMap \<Rightarrow> string list \<times> NodeMap" where
  "calculateDepthsLoop ks st = fold (\<lambda>nodeName st. snd (calculateDepth nodeName (fst st) (snd st))) ks st"

definition calculateDepths :: "NodeMap \<Rightarrow> NodeMap" where
  "calculateDepths ns = snd (calculateDepthsLoop (map fst ns) ([], ns))"

section \<open>Merging manifest edges and imports\<close>

definition edgeKey :: "string \<Rightarrow> string \<Rightarrow> string" where
  "edgeKey f t = f @ ''|'' @ t"

type_synonym EdgeMap = "(string \<times> EnhancedDependencyEdge) list"

text \<open>
  \<^verbatim>\<open>findCargoDependency\<close>: a lookup in
  \<^verbatim>\<open>{...dependencies, ...buildDependencies, ...devDependencies}\<close>.
\<close>

definition allDeps :: "ContractMetadata \<Rightarrow> (string \<times> CargoDependency) list" where
  "allDeps contract =
     objectSpread (objectSpread (cargoDependencies contract) (buildDependencies contract))
       (devDependencies contract)"

definition findCargoDependency :: "ContractMetadata \<Rightarrow> string \<Rightarrow> CargoDependency option" where
  "findCargoDependency contract dn = map_of (allDeps contract) dn"

text \<open>The two lookup tables of \<^verbatim>\<open>buildEnhancedEdges\<close>; a later contract overrides.\<close>

definition contractByPath :: "ContractMetadata list \<Rightarrow> (string \<times> ContractMetadata) list" where
  "contractByPath contracts =
     fold (\<lambda>contract m. mapSet (normalizePath (cargoTomlPath contract)) contract m) contracts []"

definition contractByName :: "ContractMetadata list \<Rightarrow> (string \<times> ContractMetadata) list" where
  "contractByName contracts =
     fold (\<lambda>contract m. mapSet (toLowerCase (contractName contract)) contract m) contracts []"

text \<open>The body of the loop over the manifest edges.\<close>

definition cargoEdgeStep :: "ContractMetadata list \<Rightarrow> DependencyEdge \<Rightarrow> EdgeMap \<Rightarrow> EdgeMap" where
  "cargoEdgeStep contracts edge edgeMap =
     (let key = edgeKey (edgeFrom edge) (edgeTo edge);
          fromContract = map_of (contractByPath contracts) (normalizePath (edgeFrom edge));
          cm = (case fromContract of
                  Some c \<Rightarrow> findCargoDependency c (dependencyName edge)
                | None \<Rightarrow> None);
          enhancedEdge = \<lparr>edgeFrom = edgeFrom edge, edgeTo = edgeTo edge, reason = reason edge,
                          dependencyName = dependencyName edge, source = Cargo,
                          edgeImports = None, edgeIsExternal = False, cargoMetadata = cm\<rparr>
      in mapSet key enhancedEdge edgeMap)"

text \<open>
  The body of the loop over the imports. An entry found under the key is mutated in
  place; \<^verbatim>\<open>existing.imports || []\<close> keeps an array that is already there.
\<close>

definition importStep :: "ContractMetadata list \<Rightarrow> ImportDependency \<Rightarrow> EdgeMap \<Rightarrow> EdgeMap" where
  "importStep contracts imp edgeMap =
     (case (map_of (contractByName contracts) (toLowerCase (sourceContract imp)),
            map_of (contractByName contracts) (toLowerCase (importedModule imp))) of
        (Some sc, Some tc) \<Rightarrow>
          (let key = edgeKey (cargoTomlPath sc) (cargoTomlPath tc)
           in case map_of edgeMap key of
                Some existing \<Rightarrow>
                  mapModify key
                    (\<lambda>e. e\<lparr>source := Both,
                            edgeImports := Some ((case edgeImports e of Some is \<Rightarrow> is | None \<Rightarrow> []) @ [imp])\<rparr>)
                    edgeMap
              | None \<Rightarrow>
                  mapSet key
                    \<lparr>edgeFrom = cargoTomlPath sc, edgeTo = cargoTomlPath tc,
                     reason = ''workspace'', dependencyName = importedModule imp,
                     source = Import, edgeImports = Some [imp], edgeIsExternal = False,
                     cargoMetadata = None\<rparr>
                    edgeMap)
      | _ \<Rightarrow> edgeMap)"

definition buildEdgeMap :: "DependencyEdge list \<Rightarrow> ImportDependency list \<Rightarrow> ContractMetadata list \<Rightarrow> EdgeMap" where
  "buildEdgeMap cargoEdges imps contracts =
     fold (importStep contracts) imps (fold (cargoEdgeStep contracts) cargoEdges [])"

definition buildEnhancedEdges ::
  "DependencyEdge list \<Rightarrow> ImportDependency list \<Rightarrow> ContractMetadata list \<Rightarrow> EnhancedDependencyEdge list" where
  "buildEnhancedEdges cargoEdges imps contracts = map snd (buildEdgeMap cargoEdges imps contracts)"

section \<open>Nodes and adjacency\<close>

definition initialNode :: "ContractMetadata \<Rightarrow> DependencyNode" where
  "initialNode contract =
     \<lparr>name = contractName contract, nodeCargoTomlPath = cargoTomlPath contract,
      nodeContractDir = contractDir contract, dependencies = [], dependents = [],
      isExternal = False, dependencyCount = 0, dependentCount = 0, depth = 0\<rparr>"

definition initNodes :: "ContractMetadata list \<Rightarrow> NodeMap" where
  "initNodes contracts =
     fold (\<lambda>contract m. mapSet (contractName contract) (initialNode contract) m) contracts []"

text \<open>
  The body of the loop over the edges. \<^verbatim>\<open>fromNode\<close> and \<^verbatim>\<open>toNode\<close> are the
  objects stored under the two contract names; they are the same object for an edge from
  a contract to itself, so the second update is applied to the map after the first.
\<close>

definition adjacencyStep :: "ContractMetadata list \<Rightarrow> EnhancedDependencyEdge \<Rightarrow> NodeMap \<Rightarrow> NodeMap" where
  "adjacencyStep contracts edge ns =
     (case (find (\<lambda>c. normalizePath (cargoTomlPath c) = normalizePath (edgeFrom edge)) contracts,
            find (\<lambda>c. normalizePath (cargoTomlPath c) = normalizePath (edgeTo edge)) contracts) of
        (Some fromContract, Some toContract) \<Rightarrow>
          (case (map_of ns (contractName fromContract), map_of ns (contractName toContract)) of
             (Some fromNode, Some toNode) \<Rightarrow>
               (let ns1 =
                      (if name toNode \<notin> set (dependencies fromNode)
                       then mapModify (contractName fromContract)
                              (\<lambda>n. n\<lparr>dependencies := dependencies n @ [name toNode],
                                      dependencyCount := dependencyCount n + 1\<rparr>) ns
                       else ns)
                in case map_of ns1 (contractName toContract) of
                     Some toNode' \<Rightarrow>
                       (if name fromNode \<notin> set (dependents toNode')
                        then mapModify (contractName toContract)
                               (\<lambda>n. n\<lparr>dependents := dependents n @ [name fromNode],
                                       dependentCount := dependentCount n + 1\<rparr>) ns1
                        else ns1)
                   | None \<Rightarrow> ns1)
           | _ \<Rightarrow> ns)
      | _ \<Rightarrow> ns)"

definition buildAdjacency :: "ContractMetadata list \<Rightarrow> EnhancedDependencyEdge list \<Rightarrow> NodeMap" where
  "buildAdjacency contracts es = fold (adjacencyStep contracts) es (initNodes contracts)"

definition buildNodes :: "ContractMetadata list \<Rightarrow> EnhancedDependencyEdge list \<Rightarrow> NodeMap" where
  "buildNodes contracts es = calculateDepths (buildAdjacency contracts es)"

section \<open>External dependencies and statistics\<close>

text \<open>
  \<^verbatim>\<open>!dep.path\<close>: the path is missing or the empty string. The mean of the statistics
  is the exact quotient, where the source computes it in floating point.
\<close>

definition noPath :: "CargoDependency \<Rightarrow> bool" where
  "noPath dep = (case cargoDepPath dep of None \<Rightarrow> True | Some p \<Rightarrow> p = [])"

definition identifyExternalDependencies ::
  "ContractMetadata list \<Rightarrow> EnhancedDependencyEdge list \<Rightarrow> string set \<times> string set" where
  "identifyExternalDependencies contracts es =
     (let wsContracts = set (map contractName contracts);
          ext = set (concat (map (\<lambda>contract.
                  map fst (filter (\<lambda>p. noPath (snd p) \<and> fst p \<notin> wsContracts) (allDeps contract)))
                contracts))
      in (ext, wsContracts))"

definition calculateStatistics ::
  "NodeMap \<Rightarrow> EnhancedDependencyEdge list \<Rightarrow> string set \<Rightarrow> DependencyGraphStatistics" where
  "calculateStatistics ns es ext =
     (let tc = length ns;
          td = length es
      in \<lparr>totalContracts = tc,
          totalDependencies = td,
          externalDependencyCount = card ext,
          circularDependencies = 0,
          maxDepth = mathMax (map (\<lambda>p. depth (snd p)) ns @ [0]),
          avgDependenciesPerContract = (if tc > 0 then of_nat td / of_nat tc else 0),
          leafContracts = length (filter (\<lambda>p. dependencyCount (snd p) = 0) ns),
          rootContracts = length (filter (\<lambda>p. dependentCount (snd p) = 0) ns)\<rparr>)"

section \<open>Scanning source files for imports\<close>

text \<open>
  A thrown value. The file system is the part of Node the service calls:
  \<^verbatim>\<open>fs.readdirSync(dir, {withFileTypes: true})\<close> and
  \<^verbatim>\<open>fs.readFileSync(path, 'utf-8')\<close>, each of which either returns or throws, and
  \<^verbatim>\<open>path.join\<close>. They are parameters of the model.
\<close>

datatype error = Error string

definition errorToString :: "error \<Rightarrow> string" where
  "errorToString e = (case e of Error m \<Rightarrow> ''Error: '' @ m)"

datatype DirentKind = IsDirectory | IsFile | IsOther

record Dirent =
  direntName :: string
  direntKind :: DirentKind

record NodeHost =
  readdirSync :: "string \<Rightarrow> error + Dirent list"
  readFileSync :: "string \<Rightarrow> error + string"
  pathJoin :: "string \<Rightarrow> string \<Rightarrow> string"

text \<open>
  \<^verbatim>\<open>path.extname\<close> of a directory entry's name (which has no separator): the text
  from the last dot on, and nothing when there is no dot, when the only dot is the first
  character, or for the name \<^verbatim>\<open>..\<close>.
\<close>

fun lastDot :: "string \<Rightarrow> nat option" where
  "lastDot [] = None"
| "lastDot (c # cs) =
     (case lastDot cs of
        Some i \<Rightarrow> Some (Suc i)
      | None \<Rightarrow> if c = CHR ''.'' then Some 0 else None)"

definition pathExtname :: "string \<Rightarrow> string" where
  "pathExtname nm =
     (case lastDot nm of
        None \<Rightarrow> []
      | Some i \<Rightarrow> if i = 0 \<or> nm = ''..'' then [] else drop i nm)"

definition skippedDirectories :: "string list" where
  "skippedDirectories = [''target'', ''node_modules'', ''.git'', ''out'']"

text \<open>
  \<^verbatim>\<open>findSourceFiles\<close>. The \<^verbatim>\<open>try\<close> block covers the listing and the loop; the
  only statement in it that can throw is the listing (a recursive call catches its own
  errors), and at that point \<^verbatim>\<open>files\<close> is still empty.
\<close>

function findSourceFiles :: "NodeHost \<Rightarrow> string \<Rightarrow> string list \<Rightarrow> int \<Rightarrow> nat \<Rightarrow> string list" where
  "findSourceFiles host dir extensions maxDepth' currentDepth =
     (if int currentDepth > maxDepth' then []
      else (case readdirSync host dir of
              Inl err \<Rightarrow> []
            | Inr entries \<Rightarrow>
                concat (map (\<lambda>entry.
                  (case direntKind entry of
                     IsDirectory \<Rightarrow>
                       if direntName entry \<in> set skippedDirectories then []
                       else findSourceFiles host (pathJoin host dir (direntName entry))
                              extensions maxDepth' (currentDepth + 1)
                   | IsFile \<Rightarrow>
                       if pathExtname (direntName entry) \<in> set extensions
                       then [pathJoin host dir (direntName entry)] else []
                   | IsOther \<Rightarrow> [])) entries)))"
  by pat_completeness auto
termination findSourceFiles
  by (relation "measure (\<lambda>(host, dir, extensions, maxDepth', currentDepth).
        nat (maxDepth' + 1 - int currentDepth))") auto

text \<open>The body of the loop of \<^verbatim>\<open>findSourceFiles\<close> over the entries, by itself.\<close>

definition entryFiles :: "NodeHost \<Rightarrow> string \<Rightarrow> string list \<Rightarrow> int \<Rightarrow> nat \<Rightarrow> Dirent \<Rightarrow> string list" where
  "entryFiles host dir extensions maxDepth' currentDepth entry =
     (case direntKind entry of
        IsDirectory \<Rightarrow>
          if direntName entry \<in> set skippedDirectories then []
          else findSourceFiles host (pathJoin host dir (direntName entry))
                 extensions maxDepth' (currentDepth + 1)
      | IsFile \<Rightarrow>
          if pathExtname (direntName entry) \<in> set extensions
          then [pathJoin host dir (direntName entry)] else []
      | IsOther \<Rightarrow> [])"

text \<open>
  White space of \<^verbatim>\<open>trim\<close> and of \<^verbatim>\<open>\s\<close> among the byte characters of the model:
  tab, line feed, vertical tab, form feed, carriage return and space.
\<close>

definition isWhitespace :: "char \<Rightarrow> bool" where
  "isWhitespace c = ((of_char c :: nat) \<in> {9, 10, 11, 12, 13, 32})"

definition trim :: "string \<Rightarrow> string" where
  "trim s = rev (dropWhile isWhitespace (rev (dropWhile isWhitespace s)))"

definition isIdentStart :: "char \<Rightarrow> bool" where
  "isIdentStart c =
     (let n = (of_char c :: nat)
      in (65 \<le> n \<and> n \<le> 90) \<or> (97 \<le> n \<and> n \<le> 122) \<or> c = CHR ''_'')"

definition isIdentChar :: "char \<Rightarrow> bool" where
  "isIdentChar c = (isIdentStart c \<or> (48 \<le> (of_char c :: nat) \<and> (of_char c :: nat) \<le> 57))"

text \<open>\<^verbatim>\<open>\s+([a-zA-Z_][a-zA-Z0-9_]*)\<close> at the start of the text; the result is the group.\<close>

definition matchSpacesIdent :: "string \<Rightarrow> string option" where
  "matchSpacesIdent r =
     (case r of
        [] \<Rightarrow> None
      | c # cs \<Rightarrow>
          if \<not> isWhitespace c then None
          else (case dropWhile isWhitespace cs of
                  [] \<Rightarrow> None
                | d # ds \<Rightarrow> if isIdentStart d then Some (d # takeWhile isIdentChar ds) else None))"

text \<open>\<^verbatim>\<open>/^use\s+([a-zA-Z_][a-zA-Z0-9_]*)/\<close>\<close>

definition matchUse :: "string \<Rightarrow> string option" where
  "matchUse line = (if take 3 line = ''use'' then matchSpacesIdent (drop 3 line) else None)"

text \<open>\<^verbatim>\<open>/^extern\s+crate\s+([a-zA-Z_][a-zA-Z0-9_]*)/\<close>\<close>

definition matchExternCrate :: "string \<Rightarrow> string option" where
  "matchExternCrate line =
     (if take 6 line = ''extern'' then
        (case drop 6 line of
           [] \<Rightarrow> None
         | c # cs \<Rightarrow>
             if \<not> isWhitespace c then None
             else (let r = dropWhile isWhitespace cs
                   in if take 5 r = ''crate'' then matchSpacesIdent (drop 5 r) else None))
      else None)"

text \<open>\<^verbatim>\<open>/^mod\s+([a-zA-Z_][a-zA-Z0-9_]*)/\<close>\<close>

definition matchMod :: "string \<Rightarrow> string option" where
  "matchMod line = (if take 3 line = ''mod'' then matchSpacesIdent (drop 3 line) else None)"

text \<open>\<^verbatim>\<open>content.split('\n')\<close>\<close>

fun splitLines :: "string \<Rightarrow> string list" where
  "splitLines [] = [[]]"
| "splitLines (c # cs) =
     (if c = CHR 0x0A then [] # splitLines cs
      else (case splitLines cs of
              l # ls \<Rightarrow> (c # l) # ls
            | [] \<Rightarrow> [[c]]))"

text \<open>One turn of the loop over the lines: the first pattern that matches wins.\<close>

definition parseLine :: "string \<Rightarrow> string \<Rightarrow> nat \<Rightarrow> string \<Rightarrow> ImportDependency list" where
  "parseLine filePath cn lineNo raw =
     (let line = trim raw
      in case matchUse line of
           Some m \<Rightarrow> [\<lparr>sourceContract = cn, importedModule = m, importType = Use,
                        sourceFile = filePath, lineNumber = lineNo, statement = line\<rparr>]
         | None \<Rightarrow>
             (case matchExternCrate line of
                Some m \<Rightarrow> [\<lparr>sourceContract = cn, importedModule = m, importType = ExternCrate,
                             sourceFile = filePath, lineNumber = lineNo, statement = line\<rparr>]
              | None \<Rightarrow>
                  (case matchMod line of
                     Some m \<Rightarrow> [\<lparr>sourceContract = cn, importedModule = m, importType = Mod,
                                  sourceFile = filePath, lineNumber = lineNo, statement = line\<rparr>]
                   | None \<Rightarrow> [])))"

definition parseContent :: "string \<Rightarrow> string \<Rightarrow> string \<Rightarrow> ImportDependency list" where
  "parseContent filePath cn content =
     (let lines = splitLines content
      in concat (map (\<lambda>(i, raw). parseLine filePath cn (i + 1) raw) (zip [0 ..< length lines] lines)))"

text \<open>
  \<^verbatim>\<open>parseImportsFromFile\<close>: the \<^verbatim>\<open>try\<close> block is the read and the loop, and only
  the read can throw, before anything was pushed; the \<^verbatim>\<open>catch\<close> logs and the empty
  array is returned. The parameter \<^verbatim>\<open>cargoTomlPath\<close> is not used by the source.
\<close>

definition parseImportsFromFile :: "NodeHost \<Rightarrow> string \<Rightarrow> string \<Rightarrow> string \<Rightarrow> ImportDependency list" where
  "parseImportsFromFile host filePath cn ctp =
     (case readFileSync host filePath of
        Inl err \<Rightarrow> []
      | Inr content \<Rightarrow> parseContent filePath cn content)"

definition detectImportDependencies ::
  "NodeHost \<Rightarrow> ContractMetadata list \<Rightarrow> DependencyDetectionOptions \<Rightarrow> ImportDependency list" where
  "detectImportDependencies host contracts opts =
     concat (map (\<lambda>contract.
       concat (map (\<lambda>sf. parseImportsFromFile host sf (contractName contract) (cargoTomlPath contract))
         (findSourceFiles host (contractDir contract) (sourceExtensions opts) (maxSourceDepth opts) 0)))
       contracts)"

text \<open>The same host, except that reading any file of \<open>B\<close> throws \<open>err\<close>.\<close>

definition failReads :: "string set \<Rightarrow> error \<Rightarrow> NodeHost \<Rightarrow> NodeHost" where
  "failReads B err host =
     host\<lparr>readFileSync := (\<lambda>f. if f \<in> B then Inl err else readFileSync host f)\<rparr>"

section \<open>The detection service: build and cache\<close>

record ServiceState =
  cachedGraph :: "DependencyGraph option"
  lastScanTime :: int

definition initialService :: ServiceState where
  "initialService = \<lparr>cachedGraph = None, lastScanTime = 0\<rparr>"

text \<open>
  \<^verbatim>\<open>buildDependencyGraph\<close>. \<open>opts\<close> is the record after the caller's options were
  spread over the defaults; \<open>now\<close> is what \<^verbatim>\<open>Date.now()\<close> returns when the graph is
  stored. The writes to the output channel are left out.
\<close>

definition buildDependencyGraph ::
  "Resolver \<Rightarrow> NodeHost \<Rightarrow> int \<Rightarrow> ContractMetadata list \<Rightarrow> DependencyDetectionOptions \<Rightarrow>
     ServiceState \<Rightarrow> DependencyGraph \<times> ServiceState" where
  "buildDependencyGraph resolveDeploymentDependencies host now contracts opts svc =
     (let cargoResolution = resolveDeploymentDependencies contracts (includeDevDependencies opts);
          imps = (if detectImports opts then detectImportDependencies host contracts opts else []);
          enhancedEdges = buildEnhancedEdges (resEdges cargoResolution) imps contracts;
          ns = buildNodes contracts enhancedEdges;
          ident = identifyExternalDependencies contracts enhancedEdges;
          stats = calculateStatistics ns enhancedEdges (fst ident);
          graph = \<lparr>nodes = ns, edges = enhancedEdges, graphImports = imps,
                   cycles = resCycles cargoResolution,
                   deploymentOrder = resOrder cargoResolution,
                   deploymentLevels = resLevels cargoResolution,
                   externalDependencies = fst ident,
                   workspaceContracts = snd ident,
                   statistics = stats\<rparr>
      in (graph, svc\<lparr>cachedGraph := Some graph, lastScanTime := now\<rparr>))"

definition getCachedGraph :: "int \<Rightarrow> int \<Rightarrow> ServiceState \<Rightarrow> DependencyGraph option" where
  "getCachedGraph maxAge now svc =
     (case cachedGraph svc of
        None \<Rightarrow> None
      | Some g \<Rightarrow> if now - lastScanTime svc > maxAge then None else Some g)"

definition invalidateCache :: "ServiceState \<Rightarrow> ServiceState" where
  "invalidateCache svc = svc\<lparr>cachedGraph := None, lastScanTime := 0\<rparr>"

section \<open>Queries on a graph\<close>

text \<open>
  The closures \<^verbatim>\<open>traverse\<close> of \<^verbatim>\<open>getTransitiveDependencies\<close> and of
  \<^verbatim>\<open>getTransitiveDependents\<close> differ only in the list they walk
  (\<^verbatim>\<open>node.dependencies\<close> or \<^verbatim>\<open>node.dependents\<close>), which is the first parameter
  here. The state is the \<^verbatim>\<open>visited\<close> set and the \<^verbatim>\<open>transitive\<close> array;
  \<open>traverseLoop\<close> is the \<^verbatim>\<open>for\<close> loop over the names.
\<close>

type_synonym TraverseState = "string list \<times> DependencyNode list"

function traverse :: "(DependencyNode \<Rightarrow> string list) \<Rightarrow> NodeMap \<Rightarrow> string \<Rightarrow> TraverseState \<Rightarrow> TraverseState"
  and traverseLoop :: "(DependencyNode \<Rightarrow> string list) \<Rightarrow> NodeMap \<Rightarrow> string list \<Rightarrow> TraverseState \<Rightarrow> TraverseState"
where
  "traverse next ns nm st =
     (case find (\<lambda>n. name n = nm) (map snd ns) of
        None \<Rightarrow> st
      | Some node \<Rightarrow> traverseLoop next ns (next node) st)"
| "traverseLoop next ns [] st = st"
| "traverseLoop next ns (depName # rest) st =
     (if depName \<in> set (fst st) then traverseLoop next ns rest st
      else (case map_of ns depName of
              None \<Rightarrow> traverseLoop next ns rest (fst st @ [depName], snd st)
            | Some depNode \<Rightarrow>
                traverseLoop next ns rest
                  (traverse next ns depName (fst st @ [depName], snd st @ [depNode]))))"
  by pat_completeness auto

lemma traverse_dom_grows:
  "traverse_traverseLoop_dom (Inl (next, ns, nm, st)) \<Longrightarrow>
     set (fst st) \<subseteq> set (fst (traverse next ns nm st))"
  "traverse_traverseLoop_dom (Inr (next, ns, ds, st)) \<Longrightarrow>
     set (fst st) \<subseteq> set (fst (traverseLoop next ns ds st))"
proof (induction "next" ns nm st and "next" ns ds st rule: traverse_traverseLoop.pinduct)
  case (1 "next" ns nm st)
  then show ?case
    by (auto simp: traverse.psimps split: option.splits)
next
  case (2 "next" ns st)
  then show ?case by (simp add: traverseLoop.psimps)
next
  case (3 "next" ns depName rest st)
  show ?case
  proof (cases "depName \<in> set (fst st)")
    case True
    with 3 show ?thesis by (simp add: traverseLoop.psimps)
  next
    case False
    show ?thesis
    proof (cases "map_of ns depName")
      case None
      with 3(1) "3.IH"(2)[OF False None] False show ?thesis
        by (auto simp: traverseLoop.psimps)
    next
      case (Some depNode)
      from "3.IH"(3)[OF False Some] "3.IH"(4)[OF False Some]
      have "set (fst st @ [depName]) \<subseteq> set (fst (traverseLoop next ns rest
                  (traverse next ns depName (fst st @ [depName], snd st @ [depNode]))))"
        by fastforce
      with 3(1) False Some show ?thesis
        by (auto simp: traverseLoop.psimps)
    qed
  qed
qed

termination traverse
proof (relation "inv_image (less_than <*lex*> less_than <*lex*> less_than)
    (\<lambda>x. case x of
        Inl (next, ns, nm, st) \<Rightarrow> (card (set (map fst ns) - set (fst st)), 1::nat, 0::nat)
      | Inr (next, ns, ds, st) \<Rightarrow> (card (set (map fst ns) - set (fst st)), 0, length ds))")
  show "wf (inv_image (less_than <*lex*> less_than <*lex*> less_than)
    (\<lambda>x. case x of
        Inl (next, ns, nm, st) \<Rightarrow> (card (set (map fst ns) - set (fst st)), 1::nat, 0::nat)
      | Inr (next, ns, ds, st) \<Rightarrow> (card (set (map fst ns) - set (fst st)), 0, length ds)))"
    by blast
next
  fix "next" :: "DependencyNode \<Rightarrow> string list" and ns :: NodeMap and nm :: string
    and st :: TraverseState and x2 :: DependencyNode
  show "(Inr (next, ns, next x2, st), Inl (next, ns, nm, st))
       \<in> inv_image (less_than <*lex*> less_than <*lex*> less_than)
    (\<lambda>x. case x of
        Inl (next, ns, nm, st) \<Rightarrow> (card (set (map fst ns) - set (fst st)), 1::nat, 0::nat)
      | Inr (next, ns, ds, st) \<Rightarrow> (card (set (map fst ns) - set (fst st)), 0, length ds))"
    by simp
next
  fix "next" :: "DependencyNode \<Rightarrow> string list" and ns :: NodeMap and depName :: string
    and rest :: "string list" and st :: TraverseState
  show "(Inr (next, ns, rest, st), Inr (next, ns, depName # rest, st))
       \<in> inv_image (less_than <*lex*> less_than <*lex*> less_than)
    (\<lambda>x. case x of
        Inl (next, ns, nm, st) \<Rightarrow> (card (set (map fst ns) - set (fst st)), 1::nat, 0::nat)
      | Inr (next, ns, ds, st) \<Rightarrow> (card (set (map fst ns) - set (fst st)), 0, length ds))"
    by simp
next
  fix "next" :: "DependencyNode \<Rightarrow> string list" and ns :: NodeMap and depName :: string
    and rest :: "string list" and st :: TraverseState
  assume "depName \<notin> set (fst st)"
  have "card (set (map fst ns) - set (fst st @ [depName])) \<le> card (set (map fst ns) - set (fst st))"
    by (intro card_mono) auto
  then show "(Inr (next, ns, rest, fst st @ [depName], snd st), Inr (next, ns, depName # rest, st))
       \<in> inv_image (less_than <*lex*> less_than <*lex*> less_than)
    (\<lambda>x. case x of
        Inl (next, ns, nm, st) \<Rightarrow> (card (set (map fst ns) - set (fst st)), 1::nat, 0::nat)
      | Inr (next, ns, ds, st) \<Rightarrow> (card (set (map fst ns) - set (fst st)), 0, length ds))"
    by auto
next
  fix "next" :: "DependencyNode \<Rightarrow> string list" and ns :: NodeMap and depName :: string
    and rest :: "string list" and st :: TraverseState and x2 :: DependencyNode
  assume "depName \<notin> set (fst st)" "map_of ns depName = Some x2"
  then have "card (set (map fst ns) - set (fst st @ [depName])) < card (set (map fst ns) - set (fst st))"
    by (intro card_diff_visit) (auto dest: map_of_SomeD simp: rev_image_eqI)
  then show "(Inl (next, ns, depName, fst st @ [depName], snd st @ [x2]), Inr (next, ns, depName # rest, st))
       \<in> inv_image (less_than <*lex*> less_than <*lex*> less_than)
    (\<lambda>x. case x of
        Inl (next, ns, nm, st) \<Rightarrow> (card (set (map fst ns) - set (fst st)), 1::nat, 0::nat)
      | Inr (next, ns, ds, st) \<Rightarrow> (card (set (map fst ns) - set (fst st)), 0, length ds))"
    by simp
next
  fix "next" :: "DependencyNode \<Rightarrow> string list" and ns :: NodeMap and depName :: string
    and rest :: "string list" and st :: TraverseState and x2 :: DependencyNode
  assume a: "depName \<notin> set (fst st)" "map_of ns depName = Some x2"
    and d: "traverse_traverseLoop_dom (Inl (next, ns, depName, fst st @ [depName], snd st @ [x2]))"
  from traverse_dom_grows(1)[OF d]
  have "set (fst st) \<subseteq> set (fst (traverse next ns depName (fst st @ [depName], snd st @ [x2])))"
    by auto
  then have "card (set (map fst ns) - set (fst (traverse next ns depName (fst st @ [depName], snd st @ [x2]))))
      \<le> card (set (map fst ns) - set (fst st))"
    by (intro card_mono) auto
  then show "(Inr (next, ns, rest, traverse next ns depName (fst st @ [depName], snd st @ [x2])),
        Inr (next, ns, depName # rest, st))
       \<in> inv_image (less_than <*lex*> less_than <*lex*> less_than)
    (\<lambda>x. case x of
        Inl (next, ns, nm, st) \<Rightarrow> (card (set (map fst ns) - set (fst st)), 1::nat, 0::nat)
      | Inr (next, ns, ds, st) \<Rightarrow> (card (set (map fst ns) - set (fst st)), 0, length ds))"
    by auto
qed

definition getTransitiveDependencies :: "DependencyGraph \<Rightarrow> string \<Rightarrow> DependencyNode list" where
  "getTransitiveDependencies graph cn = snd (traverse dependencies (nodes graph) cn ([], []))"

definition getTransitiveDependents :: "DependencyGraph \<Rightarrow> string \<Rightarrow> DependencyNode list" where
  "getTransitiveDependents graph cn = snd (traverse dependents (nodes graph) cn ([], []))"

record DependencyQueryResult =
  direct :: "DependencyNode list"
  transitive :: "DependencyNode list"

definition getContractDependencies :: "DependencyGraph \<Rightarrow> string \<Rightarrow> DependencyQueryResult" where
  "getContractDependencies graph cn =
     (case find (\<lambda>n. name n = cn) (map snd (nodes graph)) of
        None \<Rightarrow> \<lparr>direct = [], transitive = []\<rparr>
      | Some node \<Rightarrow>
          \<lparr>direct = List.map_filter (map_of (nodes graph)) (dependencies node),
           transitive = getTransitiveDependencies graph cn\<rparr>)"

definition getContractDependents :: "DependencyGraph \<Rightarrow> string \<Rightarrow> DependencyQueryResult" where
  "getContractDependents graph cn =
     (case find (\<lambda>n. name n = cn) (map snd (nodes graph)) of
        None \<Rightarrow> \<lparr>direct = [], transitive = []\<rparr>
      | Some node \<Rightarrow>
          \<lparr>direct = List.map_filter (map_of (nodes graph)) (dependents node),
           transitive = getTransitiveDependents graph cn\<rparr>)"

section \<open>The watcher\<close>

datatype ChangeType = Added | Removed | Modified | FullRefresh

record DependencyChangeEvent =
  eventType :: ChangeType
  affectedContracts :: "string list"
  timestamp :: int
  eventGraph :: DependencyGraph

record DependencyWatcherOptions =
  debounceMs :: nat
  watchSourceFiles :: bool
  autoRefresh :: bool

text \<open>
  The fields of \<^verbatim>\<open>ContractDependencyWatcherService\<close> that \<^verbatim>\<open>refresh\<close> and the
  timer callback touch, the state of the detection service it owns, the lines written to
  its output channel, and the events handed to \<^verbatim>\<open>emitChange\<close> (\<open>published\<close>, kept
  to state what was emitted). A listener is a function that may throw.
\<close>

record WatcherState =
  watcherOptions :: DependencyWatcherOptions
  pendingChanges :: "string list"
  changeListeners :: "(DependencyChangeEvent \<Rightarrow> error option) list"
  outputLines :: "string list"
  published :: "DependencyChangeEvent list"
  dependencyService :: ServiceState

text \<open>
  What \<^verbatim>\<open>refresh\<close> gets from outside: the outcome of
  \<^verbatim>\<open>metadataService.scanWorkspace()\<close> (its \<^verbatim>\<open>contracts\<close>, or a throw), the
  resolver, the file system, and the two readings of \<^verbatim>\<open>Date.now()\<close>.
\<close>

record RefreshEnv =
  scanWorkspace :: "error + ContractMetadata list"
  resolver :: Resolver
  nodeHost :: NodeHost
  buildTime :: int
  eventTime :: int

definition logLine :: "string \<Rightarrow> WatcherState \<Rightarrow> WatcherState" where
  "logLine msg w = w\<lparr>outputLines := outputLines w @ [msg]\<rparr>"

definition emitChange :: "DependencyChangeEvent \<Rightarrow> WatcherState \<Rightarrow> WatcherState" where
  "emitChange event w =
     fold (\<lambda>listener w'.
             (case listener event of
                None \<Rightarrow> w'
              | Some err \<Rightarrow>
                  logLine (''[DependencyWatcher] Error in change listener: '' @ errorToString err) w'))
       (changeListeners w) (w\<lparr>published := published w @ [event]\<rparr>)"

text \<open>
  \<^verbatim>\<open>refresh\<close>: the result is what the promise settles to (\<open>Inl\<close> for a rejection)
  and the state left behind.
\<close>

definition refresh :: "RefreshEnv \<Rightarrow> ChangeType \<Rightarrow> WatcherState \<Rightarrow> (error + unit) \<times> WatcherState" where
  "refresh env changeType w =
     (let w0 = logLine ''[DependencyWatcher] Refreshing dependency graph...'' w;
          w1 = w0\<lparr>dependencyService := invalidateCache (dependencyService w0)\<rparr>
      in case scanWorkspace env of
           Inl err \<Rightarrow>
             (Inl err, logLine (''[DependencyWatcher] Failed to refresh: '' @ errorToString err) w1)
         | Inr contracts \<Rightarrow>
             if length contracts = 0
             then (Inr (), logLine ''[DependencyWatcher] No contracts found in workspace'' w1)
             else
               (let built = buildDependencyGraph (resolver env) (nodeHost env) (buildTime env) contracts
                              (defaultOptions\<lparr>detectImports := watchSourceFiles (watcherOptions w1)\<rparr>)
                              (dependencyService w1);
                    w2 = w1\<lparr>dependencyService := snd built\<rparr>;
                    event = \<lparr>eventType = changeType, affectedContracts = pendingChanges w2,
                             timestamp = eventTime env, eventGraph = fst built\<rparr>;
                    w3 = emitChange event w2;
                    w4 = w3\<lparr>pendingChanges := []\<rparr>
                in (Inr (), logLine ''[DependencyWatcher] Dependency graph refreshed successfully'' w4)))"

text \<open>
  The callback that \<^verbatim>\<open>scheduleRefresh\<close> hands to \<^verbatim>\<open>setTimeout\<close>: the debounced
  automatic refresh, with its \<^verbatim>\<open>.catch\<close>.
\<close>

definition debouncedRefresh :: "RefreshEnv \<Rightarrow> ChangeType \<Rightarrow> WatcherState \<Rightarrow> WatcherState" where
  "debouncedRefresh env changeType w =
     (if autoRefresh (watcherOptions w)
      then (case refresh env changeType w of
              (Inl err, w') \<Rightarrow>
                logLine (''[DependencyWatcher] Auto-refresh failed: '' @ errorToString err) w'
            | (Inr u, w') \<Rightarrow> w')
      else w)"

section \<open>The dependency relation of a node map\<close>

text \<open>
  Reading a node map: the depth and the dependencies stored under a name (0 and none for
  a name that is not a key), the pairs (node, dependency) of all adjacency lists, and the
  map with every depth reset, which is what \<^verbatim>\<open>calculateDepths\<close> leaves unchanged.
\<close>

definition depthOf :: "NodeMap \<Rightarrow> string \<Rightarrow> nat" where
  "depthOf ns k = (case map_of ns k of Some n \<Rightarrow> depth n | None \<Rightarrow> 0)"

definition depsOf :: "NodeMap \<Rightarrow> string \<Rightarrow> string list" where
  "depsOf ns k = (case map_of ns k of Some n \<Rightarrow> dependencies n | None \<Rightarrow> [])"

definition depEdges :: "NodeMap \<Rightarrow> (string \<times> string) list" where
  "depEdges ns = concat (map (\<lambda>p. map (Pair (fst p)) (dependencies (snd p))) ns)"

definition eraseDepth :: "NodeMap \<Rightarrow> NodeMap" where
  "eraseDepth ns = map (\<lambda>p. (fst p, (snd p)\<lparr>depth := 0\<rparr>)) ns"

text \<open>
  \<open>depRel\<close> is the relation of \<open>depEdges\<close> read through the lookup. \<open>depthPre\<close> and
  \<open>depthPost\<close> are the contract of one call of \<^verbatim>\<open>calculateDepth\<close> against a
  function \<open>h\<close> that solves the depth recurrence: every visited node that can be reached
  from the nodes about to be entered already holds its \<open>h\<close>, and the call gives every
  node it visits its \<open>h\<close> while leaving the others alone.
\<close>

definition depRel :: "NodeMap \<Rightarrow> (string \<times> string) set" where
  "depRel ns = {(a, b). b \<in> set (depsOf ns a)}"

definition depthPre :: "(string \<Rightarrow> nat) \<Rightarrow> NodeMap \<Rightarrow> string set \<Rightarrow> string list \<Rightarrow> NodeMap \<Rightarrow> bool" where
  "depthPre h ns0 S visited ns \<longleftrightarrow>
     eraseDepth ns = eraseDepth ns0 \<and>
     (\<forall>a\<in>S. \<forall>v. (a, v) \<in> (depRel ns0)\<^sup>* \<longrightarrow> v \<in> set visited \<longrightarrow> depthOf ns v = h v)"

definition depthPost :: "(string \<Rightarrow> nat) \<Rightarrow> NodeMap \<Rightarrow> string list \<Rightarrow> NodeMap \<Rightarrow> string list \<Rightarrow> NodeMap \<Rightarrow> bool" where
  "depthPost h ns0 visited ns vis' ns' \<longleftrightarrow>
     set visited \<subseteq> set vis' \<and> eraseDepth ns' = eraseDepth ns0 \<and>
     (\<forall>v\<in>set visited. depthOf ns' v = depthOf ns v) \<and>
     (\<forall>v\<in>set vis' - set visited. depthOf ns' v = h v)"

section \<open>Invariants of the two maps\<close>

text \<open>
  What every node built from the edges satisfies (\<open>nodeOk\<close>, and \<open>nodesInv\<close> for the
  whole map, whose keys are the nodes' names), what every entry of the edge map satisfies
  (\<open>edgeMapInv\<close>: the key is built from the entry's own endpoints), the imports an edge
  carries (none when the field is absent), and an import being on the list of the edge
  stored under a key (\<open>attached\<close>).
\<close>

definition nodeOk :: "DependencyNode \<Rightarrow> bool" where
  "nodeOk n \<longleftrightarrow>
     distinct (dependencies n) \<and> distinct (dependents n) \<and>
     dependencyCount n = length (dependencies n) \<and> dependentCount n = length (dependents n)"

definition nodesInv :: "NodeMap \<Rightarrow> bool" where
  "nodesInv ns \<longleftrightarrow> distinct (map fst ns) \<and> (\<forall>p\<in>set ns. nodeOk (snd p) \<and> name (snd p) = fst p)"

definition importsOf :: "EnhancedDependencyEdge \<Rightarrow> ImportDependency list" where
  "importsOf e = (case edgeImports e of Some is \<Rightarrow> is | None \<Rightarrow> [])"

definition edgeMapInv :: "EdgeMap \<Rightarrow> bool" where
  "edgeMapInv m \<longleftrightarrow>
     distinct (map fst m) \<and> (\<forall>p\<in>set m. fst p = edgeKey (edgeFrom (snd p)) (edgeTo (snd p)))"

definition attached :: "EdgeMap \<Rightarrow> string \<Rightarrow> ImportDependency \<Rightarrow> bool" where
  "attached m k imp \<longleftrightarrow> (\<exists>e. map_of m k = Some e \<and> imp \<in> set (importsOf e))"

section \<open>Example inputs\<close>

text \<open>
  Contracts as the test's \<^verbatim>\<open>createMockContract\<close> makes them, manifest edges as the
  resolver reports them, and a host on which every read fails.
\<close>

definition workspaceDep :: "string \<Rightarrow> string \<times> CargoDependency" where
  "workspaceDep n =
     (n, \<lparr>cargoDepName = n, cargoDepPath = None, cargoDepVersion = None, cargoDepWorkspace = True\<rparr>)"

definition mockContract :: "string \<Rightarrow> string \<Rightarrow> string list \<Rightarrow> ContractMetadata" where
  "mockContract n d deps =
     \<lparr>contractName = n, cargoTomlPath = d @ ''/Cargo.toml'', contractDir = d,
      cargoDependencies = map workspaceDep deps, buildDependencies = [], devDependencies = []\<rparr>"

definition cargoEdge :: "string \<Rightarrow> string \<Rightarrow> string \<Rightarrow> DependencyEdge" where
  "cargoEdge f t dn =
     \<lparr>edgeFrom = f @ ''/Cargo.toml'', edgeTo = t @ ''/Cargo.toml'', reason = ''workspace'',
      dependencyName = dn\<rparr>"

definition chainContracts :: "ContractMetadata list" where
  "chainContracts =
     [mockContract ''alpha'' ''/ws/a'' [''beta''], mockContract ''beta'' ''/ws/b'' [''gamma''],
      mockContract ''gamma'' ''/ws/c'' []]"

definition chainResolver :: Resolver where
  "chainResolver contracts dev =
     \<lparr>resEdges = [cargoEdge ''/ws/a'' ''/ws/b'' ''beta'', cargoEdge ''/ws/b'' ''/ws/c'' ''gamma''],
      resCycles = [], resOrder = [''gamma'', ''beta'', ''alpha''],
      resLevels = [[''gamma''], [''beta''], [''alpha'']]\<rparr>"

definition cycleContracts :: "ContractMetadata list" where
  "cycleContracts =
     [mockContract ''alpha'' ''/ws/a'' [''beta''], mockContract ''beta'' ''/ws/b'' [''alpha'']]"

definition cycleResolver :: Resolver where
  "cycleResolver contracts dev =
     \<lparr>resEdges = [cargoEdge ''/ws/a'' ''/ws/b'' ''beta'', cargoEdge ''/ws/b'' ''/ws/a'' ''alpha''],
      resCycles = [[''alpha'', ''beta'', ''alpha'']], resOrder = [], resLevels = []\<rparr>"

definition unreadableHost :: NodeHost where
  "unreadableHost =
     \<lparr>readdirSync = (\<lambda>d. Inl (Error ''ENOENT'')), readFileSync = (\<lambda>f. Inl (Error ''ENOENT'')),
      pathJoin = (\<lambda>d n. d @ ''/'' @ n)\<rparr>"

definition noImports :: DependencyDetectionOptions where
  "noImports = defaultOptions\<lparr>detectImports := False\<rparr>"


definition cycleNodes :: NodeMap where
  "cycleNodes =
     buildAdjacency cycleContracts
       (buildEnhancedEdges (resEdges (cycleResolver cycleContracts False)) [] cycleContracts)"

text \<open>
  A host with one contract directory: a source directory with two files, a directory
  that cannot be listed, and a manifest. Contracts without manifest dependencies and a
  resolver result without edges go with it.
\<close>

definition libSource :: string where
  "libSource = ''use beta::Thing;'' @ [CHR 0x0A] @ ''  use beta::Other;'' @ [CHR 0x0A] @ ''fn main() {}''"

definition utilSource :: string where
  "utilSource = ''extern crate gamma ;'' @ [CHR 0x0A] @ ''mod helpers;''"

definition exampleHost :: NodeHost where
  "exampleHost =
     \<lparr>readdirSync = (\<lambda>d.
        if d = ''/ws/a'' then
          Inr [\<lparr>direntName = ''src'', direntKind = IsDirectory\<rparr>,
               \<lparr>direntName = ''locked'', direntKind = IsDirectory\<rparr>,
               \<lparr>direntName = ''Cargo.toml'', direntKind = IsFile\<rparr>]
        else if d = ''/ws/a/src'' then
          Inr [\<lparr>direntName = ''util.rs'', direntKind = IsFile\<rparr>,
               \<lparr>direntName = ''lib.rs'', direntKind = IsFile\<rparr>]
        else Inl (Error ''EACCES'')),
      readFileSync = (\<lambda>f.
        if f = ''/ws/a/src/lib.rs'' then Inr libSource
        else if f = ''/ws/a/src/util.rs'' then Inr utilSource
        else Inl (Error ''ENOENT'')),
      pathJoin = (\<lambda>d n. d @ ''/'' @ n)\<rparr>"

definition importContracts :: "ContractMetadata list" where
  "importContracts = [mockContract ''alpha'' ''/ws/a'' [], mockContract ''beta'' ''/ws/b'' []]"

definition noEdgesResolver :: Resolver where
  "noEdgesResolver contracts dev =
     \<lparr>resEdges = [], resCycles = [], resOrder = [''alpha'', ''beta''],
      resLevels = [[''alpha'', ''beta'']]\<rparr>"

definition importRecord :: "ImportType \<Rightarrow> string \<Rightarrow> string \<Rightarrow> nat \<Rightarrow> string \<Rightarrow> ImportDependency" where
  "importRecord ty m f l st =
     \<lparr>sourceContract = ''alpha'', importedModule = m, importType = ty, sourceFile = f,
      lineNumber = l, statement = st\<rparr>"

definition alphaOnly :: "ContractMetadata list" where
  "alphaOnly = [mockContract ''alpha'' ''/ws/a'' []]"

text \<open>A manifest edge from alpha to beta that the imports of the host confirm.\<close>

definition mergeContracts :: "ContractMetadata list" where
  "mergeContracts = [mockContract ''alpha'' ''/ws/a'' [''beta''], mockContract ''beta'' ''/ws/b'' []]"

definition mergeResolver :: Resolver where
  "mergeResolver contracts dev =
     \<lparr>resEdges = [cargoEdge ''/ws/a'' ''/ws/b'' ''beta''], resCycles = [],
      resOrder = [''beta'', ''alpha''], resLevels = [[''beta''], [''alpha'']]\<rparr>"

definition mergedGraph :: DependencyGraph where
  "mergedGraph =
     fst (buildDependencyGraph mergeResolver exampleHost 1000 mergeContracts defaultOptions
            initialService)"

definition exampleWatcherOptions :: DependencyWatcherOptions where
  "exampleWatcherOptions = \<lparr>debounceMs = 1000, watchSourceFiles = False, autoRefresh = True\<rparr>"

definition exampleService :: ServiceState where
  "exampleService =
     snd (buildDependencyGraph chainResolver unreadableHost 1000 chainContracts noImports initialService)"

definition exampleGraph :: DependencyGraph where
  "exampleGraph =
     fst (buildDependencyGraph chainResolver unreadableHost 1000 chainContracts noImports initialService)"

definition exampleWatcher :: WatcherState where
  "exampleWatcher =
     \<lparr>watcherOptions = exampleWatcherOptions, pendingChanges = [''/ws/a/src/lib.rs''],
      changeListeners = [], outputLines = [], published = [],
      dependencyService = exampleService\<rparr>"

definition failingScanEnv :: RefreshEnv where
  "failingScanEnv =
     \<lparr>scanWorkspace = Inl (Error ''scan failed''), resolver = chainResolver,
      nodeHost = unreadableHost, buildTime = 2000, eventTime = 2001\<rparr>"

definition emptyScanEnv :: RefreshEnv where
  "emptyScanEnv =
     \<lparr>scanWorkspace = Inr [], resolver = chainResolver,
      nodeHost = unreadableHost, buildTime = 2000, eventTime = 2001\<rparr>"

section \<open>The depth computation\<close>

declare calculateDepth.simps [simp del]

lemma calculateDepth_grows:
  "calculateDepth n vis ns = (d, vis', ns') \<Longrightarrow> set vis \<subseteq> set vis' \<and> map fst ns' = map fst ns"
  "calculateDepthMap ds vis ns = (xs, vis', ns') \<Longrightarrow> set vis \<subseteq> set vis' \<and> map fst ns' = map fst ns"
  using calculateDepth_dom_grows calculateDepth_total by blast+

lemma calculateDepth_distinct:
  "distinct visited \<Longrightarrow> distinct (fst (snd (calculateDepth nodeName visited ns)))"
  "distinct visited \<Longrightarrow> distinct (fst (snd (calculateDepthMap ds visited ns)))"
proof (induction nodeName visited ns and ds visited ns rule: calculateDepth_calculateDepthMap.induct)
  case (1 nodeName visited ns)
  show ?case
  proof (cases "nodeName \<in> set visited")
    case True
    with 1 show ?thesis by (simp add: calculateDepth.simps)
  next
    case False
    show ?thesis
    proof (cases "map_of ns nodeName")
      case None
      with 1 False show ?thesis by (simp add: calculateDepth.simps)
    next
      case (Some node)
      show ?thesis
      proof (cases "dependencies node = []")
        case True
        with 1 False Some show ?thesis by (simp add: calculateDepth.simps)
      next
        case nonempty: False
        have "distinct (visited @ [nodeName])" using 1(2) False by simp
        from "1.IH"[OF False Some nonempty this] False Some nonempty show ?thesis
          by (auto simp: calculateDepth.simps split: prod.splits)
      qed
    qed
  qed
next
  case (2 visited ns)
  then show ?case by simp
next
  case (3 dep deps visited ns)
  obtain d1 v1 n1 where r1: "calculateDepth dep visited ns = (d1, v1, n1)"
    by (cases "calculateDepth dep visited ns") auto
  from "3.IH"(1)[OF "3.prems"] r1 have "distinct v1" by simp
  from "3.IH"(2)[OF r1[symmetric] refl this] r1 show ?case
    by (auto split: prod.splits)
qed

lemma calculateDepthsLoop_distinct:
  "distinct (fst st) \<Longrightarrow> distinct (fst (calculateDepthsLoop ks st))"
proof (induction ks arbitrary: st)
  case Nil
  then show ?case by (simp add: calculateDepthsLoop_def)
next
  case (Cons k ks)
  have "distinct (fst (snd (calculateDepth k (fst st) (snd st))))"
    using Cons.prems by (rule calculateDepth_distinct(1))
  from Cons.IH[OF this] show ?case by (simp add: calculateDepthsLoop_def)
qed

subsection \<open>Depth on acyclic maps\<close>

lemma map_of_mapModify:
  "map_of (mapModify k f m) k' =
     (if k' = k then map_option f (map_of m k) else map_of m k')"
  by (induction m) (auto simp: mapModify_def)

lemma depthOf_setDepth:
  "depthOf (setDepth k d ns) v = (if v = k \<and> map_of ns k \<noteq> None then d else depthOf ns v)"
  by (auto simp: depthOf_def setDepth_def map_of_mapModify split: option.splits)

lemma eraseDepth_setDepth: "eraseDepth (setDepth k d ns) = eraseDepth ns"
  by (induction ns) (auto simp: eraseDepth_def setDepth_def mapModify_def)

lemma map_of_eraseDepth: "map_of (eraseDepth ns) k = map_option (\<lambda>n. n\<lparr>depth := 0\<rparr>) (map_of ns k)"
  by (induction ns) (auto simp: eraseDepth_def)

lemma eraseDepth_depsOf: "eraseDepth ns = eraseDepth ns0 \<Longrightarrow> depsOf ns k = depsOf ns0 k"
proof -
  assume e: "eraseDepth ns = eraseDepth ns0"
  have "map_option (\<lambda>n. n\<lparr>depth := 0\<rparr>) (map_of ns k) = map_option (\<lambda>n. n\<lparr>depth := 0\<rparr>) (map_of ns0 k)"
    using e by (metis map_of_eraseDepth)
  then have "map_option dependencies (map_of ns k) = map_option dependencies (map_of ns0 k)"
    by (cases "map_of ns k"; cases "map_of ns0 k") (auto, metis DependencyNode.select_convs(4) DependencyNode.surjective DependencyNode.update_convs(9))
  then show ?thesis
    by (cases "map_of ns k"; cases "map_of ns0 k") (auto simp: depsOf_def)
qed

lemma depthPost_refl: "eraseDepth ns = eraseDepth ns0 \<Longrightarrow> depthPost h ns0 visited ns visited ns"
  by (simp add: depthPost_def)

lemma depthPost_trans:
  "depthPost h ns0 a na b nb \<Longrightarrow> depthPost h ns0 b nb c nc \<Longrightarrow> depthPost h ns0 a na c nc"
proof -
  assume p: "depthPost h ns0 a na b nb" and q: "depthPost h ns0 b nb c nc"
  have 1: "set a \<subseteq> set c" using p q by (auto simp: depthPost_def)
  have 2: "eraseDepth nc = eraseDepth ns0" using q by (simp add: depthPost_def)
  have 3: "depthOf nc v = depthOf na v" if "v \<in> set a" for v
  proof -
    from that p have "v \<in> set b" by (auto simp: depthPost_def)
    with q have "depthOf nc v = depthOf nb v" by (simp add: depthPost_def)
    also from that p have "depthOf nb v = depthOf na v" by (simp add: depthPost_def)
    finally show ?thesis .
  qed
  have 4: "depthOf nc v = h v" if "v \<in> set c - set a" for v
  proof (cases "v \<in> set b")
    case True
    with q have "depthOf nc v = depthOf nb v" by (simp add: depthPost_def)
    moreover from True that p have "depthOf nb v = h v" by (simp add: depthPost_def)
    ultimately show ?thesis by simp
  next
    case False
    with that q show ?thesis by (simp add: depthPost_def)
  qed
  from 1 2 3 4 show ?thesis by (simp add: depthPost_def)
qed

lemma depthPre_step:
  "depthPre h ns0 S a na \<Longrightarrow> depthPost h ns0 a na b nb \<Longrightarrow> depthPre h ns0 S b nb"
proof -
  assume p: "depthPre h ns0 S a na" and q: "depthPost h ns0 a na b nb"
  have 1: "eraseDepth nb = eraseDepth ns0" using q by (simp add: depthPost_def)
  have 2: "depthOf nb v = h v" if "x \<in> S" "(x, v) \<in> (depRel ns0)\<^sup>*" "v \<in> set b" for x v
  proof (cases "v \<in> set a")
    case True
    with that p have "depthOf na v = h v" by (auto simp: depthPre_def)
    moreover from True q have "depthOf nb v = depthOf na v" by (simp add: depthPost_def)
    ultimately show ?thesis by simp
  next
    case False
    with that q show ?thesis by (simp add: depthPost_def)
  qed
  from 1 2 show ?thesis unfolding depthPre_def by blast
qed

lemma depthPre_mono: "S' \<subseteq> S \<Longrightarrow> depthPre h ns0 S a na \<Longrightarrow> depthPre h ns0 S' a na"
  unfolding depthPre_def by blast

lemma eraseDepth_map_of_None:
  "eraseDepth a = eraseDepth b \<Longrightarrow> (map_of a k = None) = (map_of b k = None)"
  by (metis map_of_eraseDepth option.map_disc_iff)

lemma depthPre_visit:
  assumes ac: "acyclic (depRel ns0)"
    and pre: "depthPre h ns0 {nodeName} visited ns"
    and nv: "nodeName \<notin> set visited"
  shows "depthPre h ns0 (set (depsOf ns0 nodeName)) (visited @ [nodeName]) ns"
  unfolding depthPre_def
proof (intro conjI ballI allI impI)
  show "eraseDepth ns = eraseDepth ns0" using pre by (simp add: depthPre_def)
next
  fix a v
  assume a: "a \<in> set (depsOf ns0 nodeName)" and r: "(a, v) \<in> (depRel ns0)\<^sup>*"
    and v: "v \<in> set (visited @ [nodeName])"
  from a have e: "(nodeName, a) \<in> depRel ns0" by (simp add: depRel_def)
  from e r have plus: "(nodeName, v) \<in> (depRel ns0)\<^sup>+" by (rule rtrancl_into_trancl2)
  have "v \<noteq> nodeName" using plus ac by (auto simp: acyclic_def)
  with v have "v \<in> set visited" by simp
  moreover from plus have "(nodeName, v) \<in> (depRel ns0)\<^sup>*" by (rule trancl_into_rtrancl)
  ultimately show "depthOf ns v = h v" using pre by (simp add: depthPre_def)
qed

lemma calculateDepth_spec:
  assumes ac: "acyclic (depRel ns0)"
    and hrec: "\<And>k. h k = (if depsOf ns0 k = [] then 0 else 1 + mathMax (map h (depsOf ns0 k)))"
  shows "depthPre h ns0 {nodeName} visited ns \<Longrightarrow>
           calculateDepth nodeName visited ns = (d, vis', ns') \<Longrightarrow>
           d = h nodeName \<and> nodeName \<in> set vis' \<and> depthPost h ns0 visited ns vis' ns'"
    and "depthPre h ns0 (set ds) visited ns \<Longrightarrow>
           calculateDepthMap ds visited ns = (xs, vis', ns') \<Longrightarrow>
           xs = map h ds \<and> set ds \<subseteq> set vis' \<and> depthPost h ns0 visited ns vis' ns'"
proof (induction nodeName visited ns and ds visited ns arbitrary: d vis' ns' and xs vis' ns'
    rule: calculateDepth_calculateDepthMap.induct)
  case (1 nodeName visited ns)
  from "1.prems"(1) have er: "eraseDepth ns = eraseDepth ns0" by (simp add: depthPre_def)
  show ?case
  proof (cases "nodeName \<in> set visited")
    case True
    have "depthOf ns nodeName = h nodeName"
      using "1.prems"(1) True by (simp add: depthPre_def)
    with "1.prems"(2) True er show ?thesis
      by (auto simp: calculateDepth.simps depthOf_def depthPost_refl)
  next
    case False
    show ?thesis
    proof (cases "map_of ns nodeName")
      case None
      then have "depsOf ns0 nodeName = []"
        using eraseDepth_depsOf[OF er, of nodeName] by (simp add: depsOf_def)
      then have h0: "h nodeName = 0" using hrec[of nodeName] by simp
      have "depthOf ns nodeName = 0" using None by (simp add: depthOf_def)
      with "1.prems"(2) False None h0 er show ?thesis
        by (auto simp: calculateDepth.simps depthPost_def)
    next
      case (Some node)
      have deps: "depsOf ns0 nodeName = dependencies node"
        using eraseDepth_depsOf[OF er, of nodeName] Some by (simp add: depsOf_def)
      show ?thesis
      proof (cases "dependencies node = []")
        case True
        then have h0: "h nodeName = 0" using hrec[of nodeName] deps by simp
        from "1.prems"(2) False Some True
        have r: "d = 0" "vis' = visited @ [nodeName]" "ns' = setDepth nodeName 0 ns"
          by (auto simp: calculateDepth.simps)
        have "depthPost h ns0 visited ns vis' ns'"
          unfolding depthPost_def r using False Some er h0
          by (auto simp: depthOf_setDepth eraseDepth_setDepth)
        with r h0 show ?thesis by simp
      next
        case nonempty: False
        obtain ys v1 n1 where m: "calculateDepthMap (dependencies node) (visited @ [nodeName]) ns = (ys, v1, n1)"
          by (cases "calculateDepthMap (dependencies node) (visited @ [nodeName]) ns") auto
        have pre': "depthPre h ns0 (set (dependencies node)) (visited @ [nodeName]) ns"
          using depthPre_visit[OF ac "1.prems"(1) False] deps by simp
        from "1.IH"[OF False Some nonempty pre' m]
        have ih: "ys = map h (dependencies node)" "set (dependencies node) \<subseteq> set v1"
          "depthPost h ns0 (visited @ [nodeName]) ns v1 n1" by auto
        have hn: "h nodeName = mathMax ys + 1"
          using hrec[of nodeName] deps nonempty ih(1) by simp
        from "1.prems"(2) False Some nonempty m
        have r: "d = mathMax ys + 1" "vis' = v1" "ns' = setDepth nodeName (mathMax ys + 1) n1"
          by (auto simp: calculateDepth.simps)
        have e1: "eraseDepth n1 = eraseDepth ns0" using ih(3) by (simp add: depthPost_def)
        have present: "map_of n1 nodeName \<noteq> None"
          using eraseDepth_map_of_None[of n1 ns nodeName] e1 er Some by simp
        have "depthPost h ns0 visited ns vis' ns'"
          unfolding depthPost_def r
        proof (intro conjI ballI)
          show "set visited \<subseteq> set v1" using ih(3) by (auto simp: depthPost_def)
          show "eraseDepth (setDepth nodeName (mathMax ys + 1) n1) = eraseDepth ns0"
            using e1 by (simp add: eraseDepth_setDepth)
          show "depthOf (setDepth nodeName (mathMax ys + 1) n1) v = depthOf ns v"
            if "v \<in> set visited" for v
          proof -
            from that False have "v \<noteq> nodeName" by auto
            moreover have "depthOf n1 v = depthOf ns v"
              using ih(3) that by (simp add: depthPost_def)
            ultimately show ?thesis by (simp add: depthOf_setDepth)
          qed
          show "depthOf (setDepth nodeName (mathMax ys + 1) n1) v = h v"
            if "v \<in> set v1 - set visited" for v
          proof (cases "v = nodeName")
            case True
            with present hn show ?thesis by (simp add: depthOf_setDepth)
          next
            case ne: False
            with that have "v \<in> set v1 - set (visited @ [nodeName])" by auto
            then have "depthOf n1 v = h v" using ih(3) by (simp add: depthPost_def)
            with ne show ?thesis by (simp add: depthOf_setDepth)
          qed
        qed
        moreover have "nodeName \<in> set v1" using ih(3) by (auto simp: depthPost_def)
        ultimately show ?thesis using r hn by simp
      qed
    qed
  qed
next
  case (2 visited ns)
  from "2.prems"(1) have er: "eraseDepth ns = eraseDepth ns0" by (simp add: depthPre_def)
  with "2.prems"(2) show ?case by (auto simp: depthPost_refl)
next
  case (3 dep deps visited ns)
  obtain d1 v1 n1 where r1: "calculateDepth dep visited ns = (d1, v1, n1)"
    by (cases "calculateDepth dep visited ns") auto
  obtain d2 v2 n2 where r2: "calculateDepthMap deps v1 n1 = (d2, v2, n2)"
    by (cases "calculateDepthMap deps v1 n1") auto
  have p1: "depthPre h ns0 {dep} visited ns"
    using "3.prems"(1) by (rule depthPre_mono[rotated]) simp
  from "3.IH"(1)[OF p1 r1]
  have ih1: "d1 = h dep" "dep \<in> set v1" "depthPost h ns0 visited ns v1 n1" by auto
  have "depthPre h ns0 (set deps) visited ns"
    using "3.prems"(1) by (rule depthPre_mono[rotated]) auto
  then have p2: "depthPre h ns0 (set deps) v1 n1" using ih1(3) by (rule depthPre_step)
  from "3.IH"(2)[OF r1[symmetric] refl p2 r2]
  have ih2: "d2 = map h deps" "set deps \<subseteq> set v2" "depthPost h ns0 v1 n1 v2 n2" by auto
  from "3.prems"(2) r1 r2 have r: "xs = d1 # d2" "vis' = v2" "ns' = n2" by auto
  have "depthPost h ns0 visited ns v2 n2" using ih1(3) ih2(3) by (rule depthPost_trans)
  moreover have "dep \<in> set v2" using ih1(2) ih2(3) by (auto simp: depthPost_def)
  ultimately show ?case using r ih1(1) ih2(1,2) by simp
qed

lemma depRel_subset_depEdges: "depRel ns \<subseteq> set (depEdges ns)"
proof
  fix x assume "x \<in> depRel ns"
  then obtain a b where x: "x = (a, b)" and b: "b \<in> set (depsOf ns a)"
    by (auto simp: depRel_def)
  from b obtain n where n: "map_of ns a = Some n" "b \<in> set (dependencies n)"
    by (cases "map_of ns a") (auto simp: depsOf_def)
  from n(1) have "(a, n) \<in> set ns" by (rule map_of_SomeD)
  with n(2) have "(a, b) \<in> set (depEdges ns)"
    by (force simp: depEdges_def)
  with x show "x \<in> set (depEdges ns)" by simp
qed

lemma depth_function_exists:
  assumes ac: "acyclic (depRel ns0)"
  shows "\<exists>h. \<forall>k. h k = (if depsOf ns0 k = [] then 0 else 1 + mathMax (map h (depsOf ns0 k)))"
proof -
  have "finite (depRel ns0)"
    using depRel_subset_depEdges by (rule finite_subset) simp
  then have wf: "wf ((depRel ns0)\<inverse>)" using ac by (rule finite_acyclic_wf_converse)
  define F where "F = (\<lambda>(f :: string \<Rightarrow> nat) k.
      if depsOf ns0 k = [] then 0 else 1 + mathMax (map f (depsOf ns0 k)))"
  define h where "h = wfrec ((depRel ns0)\<inverse>) F"
  have "h k = F h k" for k
  proof -
    have "h k = F (cut h ((depRel ns0)\<inverse>) k) k"
      unfolding h_def by (rule wfrec[OF wf])
    also have "\<dots> = F h k"
    proof -
      have "cut h ((depRel ns0)\<inverse>) k x = h x" if "x \<in> set (depsOf ns0 k)" for x
        using that by (intro cut_apply) (simp add: depRel_def)
      then have m: "map (cut h ((depRel ns0)\<inverse>) k) (depsOf ns0 k) = map h (depsOf ns0 k)"
        by (intro map_cong) auto
      show ?thesis by (simp only: F_def m)
    qed
    finally show ?thesis .
  qed
  then show ?thesis unfolding F_def by blast
qed

lemma calculateDepthsLoop_spec:
  assumes ac: "acyclic (depRel ns0)"
    and hrec: "\<And>k. h k = (if depsOf ns0 k = [] then 0 else 1 + mathMax (map h (depsOf ns0 k)))"
  shows "depthPre h ns0 UNIV (fst st) (snd st) \<Longrightarrow>
     depthPre h ns0 UNIV (fst (calculateDepthsLoop ks st)) (snd (calculateDepthsLoop ks st)) \<and>
     set ks \<union> set (fst st) \<subseteq> set (fst (calculateDepthsLoop ks st))"
proof (induction ks arbitrary: st)
  case Nil
  then show ?case by (simp add: calculateDepthsLoop_def)
next
  case (Cons k ks)
  obtain d v1 n1 where r: "calculateDepth k (fst st) (snd st) = (d, v1, n1)"
    by (cases "calculateDepth k (fst st) (snd st)") auto
  have "depthPre h ns0 {k} (fst st) (snd st)"
    using Cons.prems by (rule depthPre_mono[rotated]) simp
  from calculateDepth_spec(1)[OF ac hrec this r]
  have sp: "k \<in> set v1" "depthPost h ns0 (fst st) (snd st) v1 n1" by auto
  have "depthPre h ns0 UNIV v1 n1" using Cons.prems sp(2) by (rule depthPre_step)
  then have "depthPre h ns0 UNIV (fst (v1, n1)) (snd (v1, n1))" by simp
  from Cons.IH[OF this]
  have ih: "depthPre h ns0 UNIV (fst (calculateDepthsLoop ks (v1, n1))) (snd (calculateDepthsLoop ks (v1, n1)))"
    "set ks \<union> set v1 \<subseteq> set (fst (calculateDepthsLoop ks (v1, n1)))" by auto
  have step: "calculateDepthsLoop (k # ks) st = calculateDepthsLoop ks (v1, n1)"
    using r by (simp add: calculateDepthsLoop_def)
  have "set (fst st) \<subseteq> set v1" using sp(2) by (simp add: depthPost_def)
  with ih sp(1) step show ?case by auto
qed

lemma calculateDepth_erase:
  "eraseDepth (snd (snd (calculateDepth nodeName visited ns))) = eraseDepth ns"
  "eraseDepth (snd (snd (calculateDepthMap ds visited ns))) = eraseDepth ns"
proof (induction nodeName visited ns and ds visited ns rule: calculateDepth_calculateDepthMap.induct)
  case (1 nodeName visited ns)
  show ?case
  proof (cases "nodeName \<in> set visited")
    case True
    then show ?thesis by (simp add: calculateDepth.simps)
  next
    case False
    show ?thesis
    proof (cases "map_of ns nodeName")
      case None
      with False show ?thesis by (simp add: calculateDepth.simps)
    next
      case (Some node)
      show ?thesis
      proof (cases "dependencies node = []")
        case True
        with False Some show ?thesis by (simp add: calculateDepth.simps eraseDepth_setDepth)
      next
        case nonempty: False
        from "1.IH"[OF False Some nonempty] False Some nonempty show ?thesis
          by (auto simp: calculateDepth.simps eraseDepth_setDepth split: prod.splits)
      qed
    qed
  qed
next
  case (2 visited ns)
  show ?case by simp
next
  case (3 dep deps visited ns)
  obtain d1 v1 n1 where r1: "calculateDepth dep visited ns = (d1, v1, n1)"
    by (cases "calculateDepth dep visited ns") auto
  from "3.IH"(1) r1 have "eraseDepth n1 = eraseDepth ns" by simp
  with "3.IH"(2)[OF r1[symmetric] refl] r1 show ?case
    by (auto split: prod.splits)
qed

lemma calculateDepths_erase: "eraseDepth (calculateDepths ns0) = eraseDepth ns0"
proof -
  have "eraseDepth (snd (calculateDepthsLoop ks st)) = eraseDepth (snd st)" for ks st
  proof (induction ks arbitrary: st)
    case Nil
    then show ?case by (simp add: calculateDepthsLoop_def)
  next
    case (Cons k ks)
    have "calculateDepthsLoop (k # ks) st =
            calculateDepthsLoop ks (snd (calculateDepth k (fst st) (snd st)))"
      by (simp add: calculateDepthsLoop_def)
    with Cons.IH[of "snd (calculateDepth k (fst st) (snd st))"] show ?case
      by (simp add: calculateDepth_erase(1))
  qed
  then show ?thesis by (simp add: calculateDepths_def)
qed

lemma calculateDepths_recurrence:
  assumes ac: "acyclic (depRel ns0)"
  shows "depthOf (calculateDepths ns0) k =
     (if depsOf (calculateDepths ns0) k = [] then 0
      else 1 + mathMax (map (depthOf (calculateDepths ns0)) (depsOf (calculateDepths ns0) k)))"
proof -
  from depth_function_exists[OF ac] obtain h where
    hrec: "\<And>k. h k = (if depsOf ns0 k = [] then 0 else 1 + mathMax (map h (depsOf ns0 k)))"
    by blast
  let ?st = "calculateDepthsLoop (map fst ns0) ([], ns0)"
  have "depthPre h ns0 UNIV (fst ([], ns0)) (snd ([], ns0))" by (simp add: depthPre_def)
  from calculateDepthsLoop_spec[OF ac hrec this, of "map fst ns0"]
  have sp: "depthPre h ns0 UNIV (fst ?st) (snd ?st)" "set (map fst ns0) \<subseteq> set (fst ?st)"
    by auto
  have er: "eraseDepth (calculateDepths ns0) = eraseDepth ns0"
    using sp(1) by (simp add: depthPre_def calculateDepths_def)
  have deps: "depsOf (calculateDepths ns0) x = depsOf ns0 x" for x
    using er by (rule eraseDepth_depsOf)
  have eq: "depthOf (calculateDepths ns0) x = h x" for x
  proof (cases "map_of ns0 x")
    case None
    then have "map_of (calculateDepths ns0) x = None"
      using eraseDepth_map_of_None[OF er, of x] by simp
    then have "depthOf (calculateDepths ns0) x = 0" by (simp add: depthOf_def)
    moreover have "h x = 0" using hrec[of x] None by (simp add: depsOf_def)
    ultimately show ?thesis by simp
  next
    case (Some n)
    then have "x \<in> set (map fst ns0)" by (auto dest: map_of_SomeD simp: rev_image_eqI)
    with sp(2) have "x \<in> set (fst ?st)" by blast
    moreover have "(x, x) \<in> (depRel ns0)\<^sup>*" by simp
    ultimately have "depthOf (snd ?st) x = h x"
      using sp(1) unfolding depthPre_def by blast
    then show ?thesis by (simp add: calculateDepths_def)
  qed
  have feq: "depthOf (calculateDepths ns0) = h" by (rule ext) (rule eq)
  show ?thesis unfolding feq deps by (rule hrec)
qed

section \<open>Termination of the depth computation\<close>

text \<open>
  Claim C6 (the depth computation terminates). Every call of \<^verbatim>\<open>calculateDepth\<close>, on
  every node map, visited set and name, lies in the accessible part of the call relation
  of the function: every chain of nested calls is finite, whether or not the dependencies
  form cycles. A call on a visited name returns at once and changes nothing; a call on
  any other name marks it; marks are never removed; and the list of marks, which gets one
  entry per time the body is entered, never holds a name twice, so no node is entered
  twice during \<^verbatim>\<open>calculateDepths\<close>.
\<close>

theorem calculateDepths_terminates:
  "calculateDepth_calculateDepthMap_dom (Inl (nodeName, visited, ns)) \<and>
   (nodeName \<in> set visited \<longrightarrow>
      calculateDepth nodeName visited ns = (depthOf ns nodeName, visited, ns)) \<and>
   (nodeName \<notin> set visited \<longrightarrow>
      nodeName \<in> set (fst (snd (calculateDepth nodeName visited ns)))) \<and>
   set visited \<subseteq> set (fst (snd (calculateDepth nodeName visited ns))) \<and>
   (distinct visited \<longrightarrow> distinct (fst (snd (calculateDepth nodeName visited ns)))) \<and>
   distinct (fst (calculateDepthsLoop (map fst ns) ([], ns)))"
proof (intro conjI impI)
  show "calculateDepth_calculateDepthMap_dom (Inl (nodeName, visited, ns))"
    by (rule calculateDepth_total)
  show "calculateDepth nodeName visited ns = (depthOf ns nodeName, visited, ns)"
    if "nodeName \<in> set visited"
    using that by (simp add: calculateDepth.simps depthOf_def)
  show "nodeName \<in> set (fst (snd (calculateDepth nodeName visited ns)))"
    if "nodeName \<notin> set visited"
  proof -
    obtain d v n where r: "calculateDepth nodeName visited ns = (d, v, n)"
      by (cases "calculateDepth nodeName visited ns") auto
    show ?thesis
    proof (cases "map_of ns nodeName")
      case None
      with that show ?thesis by (simp add: calculateDepth.simps)
    next
      case (Some node)
      show ?thesis
      proof (cases "dependencies node = []")
        case True
        with that Some show ?thesis by (simp add: calculateDepth.simps)
      next
        case False
        obtain ds v1 n1 where m: "calculateDepthMap (dependencies node) (visited @ [nodeName]) ns = (ds, v1, n1)"
          by (cases "calculateDepthMap (dependencies node) (visited @ [nodeName]) ns") auto
        from calculateDepth_grows(2)[OF m] have "nodeName \<in> set v1" by auto
        with that Some False m show ?thesis by (simp add: calculateDepth.simps)
      qed
    qed
  qed
  show "set visited \<subseteq> set (fst (snd (calculateDepth nodeName visited ns)))"
  proof -
    obtain d v n where r: "calculateDepth nodeName visited ns = (d, v, n)"
      by (cases "calculateDepth nodeName visited ns") auto
    from calculateDepth_grows(1)[OF r] r show ?thesis by simp
  qed
  show "distinct (fst (snd (calculateDepth nodeName visited ns)))" if "distinct visited"
    using that by (rule calculateDepth_distinct(1))
  show "distinct (fst (calculateDepthsLoop (map fst ns) ([], ns)))"
    by (rule calculateDepthsLoop_distinct) simp
qed

lemma cycleNodes_visit: "fst (snd (calculateDepth ''alpha'' [] cycleNodes)) = [''alpha'', ''beta'']"
  by code_simp

lemma cycleNodes_depths: "map (\<lambda>p. depth (snd p)) (calculateDepths cycleNodes) = [2, 1]"
  by code_simp

lemma cycleNodes_depEdges: "depEdges cycleNodes = [(''alpha'', ''beta''), (''beta'', ''alpha'')]"
  by code_simp

text \<open>
  Claim C6, witness: two contracts that depend on each other. The relation has a cycle,
  the call on alpha ends after entering alpha and beta once each, a second call on alpha
  returns at once, and \<^verbatim>\<open>calculateDepths\<close> yields the depths 2 and 1.
\<close>

theorem calculateDepths_terminates_witness:
  "\<not> acyclic (set (depEdges cycleNodes)) \<and>
   calculateDepth_calculateDepthMap_dom (Inl (''alpha'', [], cycleNodes)) \<and>
   ''alpha'' \<in> set (fst (snd (calculateDepth ''alpha'' [] cycleNodes))) \<and>
   distinct (fst (snd (calculateDepth ''alpha'' [] cycleNodes))) \<and>
   fst (snd (calculateDepth ''alpha'' [] cycleNodes)) = [''alpha'', ''beta''] \<and>
   calculateDepth ''alpha'' [''alpha''] cycleNodes = (depthOf cycleNodes ''alpha'', [''alpha''], cycleNodes) \<and>
   distinct (fst (calculateDepthsLoop (map fst cycleNodes) ([], cycleNodes))) \<and>
   map (\<lambda>p. depth (snd p)) (calculateDepths cycleNodes) = [2, 1]"
proof -
  have cyc: "\<not> acyclic (set (depEdges cycleNodes))"
  proof -
    have ab: "(''alpha'', ''beta'') \<in> set (depEdges cycleNodes)"
      and ba: "(''beta'', ''alpha'') \<in> set (depEdges cycleNodes)"
      unfolding cycleNodes_depEdges by simp_all
    from r_into_trancl[OF ab] ba
    have "(''alpha'', ''alpha'') \<in> (set (depEdges cycleNodes))\<^sup>+"
      by (rule trancl_into_trancl)
    then show ?thesis by (auto simp: acyclic_def)
  qed
  note t1 = calculateDepths_terminates[of "''alpha''" "[]" cycleNodes]
  note t2 = calculateDepths_terminates[of "''alpha''" "[''alpha'']" cycleNodes]
  from t1 have a: "calculateDepth_calculateDepthMap_dom (Inl (''alpha'', [], cycleNodes))"
    by (rule conjunct1)
  from t1 have b: "''alpha'' \<in> set (fst (snd (calculateDepth ''alpha'' [] cycleNodes)))"
    by simp
  from t1 have c: "distinct (fst (snd (calculateDepth ''alpha'' [] cycleNodes)))"
    by simp
  from t2 have d: "calculateDepth ''alpha'' [''alpha''] cycleNodes = (depthOf cycleNodes ''alpha'', [''alpha''], cycleNodes)"
    by simp
  from t1 have e: "distinct (fst (calculateDepthsLoop (map fst cycleNodes) ([], cycleNodes)))"
    by (elim conjE)
  from cyc a b c cycleNodes_visit d e cycleNodes_depths show ?thesis by (intro conjI)
qed

section \<open>Uniqueness of edges and adjacency, depth on acyclic graphs\<close>

subsection \<open>Insertion-ordered maps\<close>

lemma map_fst_mapSet:
  "map fst (mapSet k v m) = (if k \<in> set (map fst m) then map fst m else map fst m @ [k])"
  by (induction m) auto

lemma distinct_mapSet: "distinct (map fst m) \<Longrightarrow> distinct (map fst (mapSet k v m))"
  by (simp add: map_fst_mapSet)

lemma set_mapSet_subset: "set (mapSet k v m) \<subseteq> insert (k, v) (set m)"
  by (induction m) auto

lemma map_of_mapSet: "map_of (mapSet k v m) k' = (if k' = k then Some v else map_of m k')"
  by (induction m) auto

lemma set_mapModify:
  "set (mapModify k f m) = (\<lambda>p. if fst p = k then (fst p, f (snd p)) else p) ` set m"
  by (simp add: mapModify_def)

subsection \<open>Adjacency\<close>

lemma nodesInv_mapSet:
  assumes "nodesInv ns" "nodeOk v" "name v = k"
  shows "nodesInv (mapSet k v ns)"
  using assms set_mapSet_subset[of k v ns]
  unfolding nodesInv_def by (auto simp: distinct_mapSet)

lemma nodesInv_initNodes: "nodesInv (initNodes contracts)"
proof -
  have "nodesInv m \<Longrightarrow>
      nodesInv (fold (\<lambda>contract m. mapSet (contractName contract) (initialNode contract) m) cs m)"
    for cs and m :: NodeMap
  proof (induction cs arbitrary: m)
    case Nil
    then show ?case by simp
  next
    case (Cons c cs)
    have "nodesInv (mapSet (contractName c) (initialNode c) m)"
      using Cons.prems by (rule nodesInv_mapSet) (simp_all add: nodeOk_def initialNode_def)
    from Cons.IH[OF this] show ?case by simp
  qed
  from this[of "[]"] show ?thesis by (simp add: initNodes_def nodesInv_def)
qed

lemma nodesInv_mapModify:
  assumes inv: "nodesInv ns"
    and f: "\<And>n. map_of ns k = Some n \<Longrightarrow> nodeOk (f n) \<and> name (f n) = name n"
  shows "nodesInv (mapModify k f ns)"
  unfolding nodesInv_def
proof (intro conjI ballI)
  show "distinct (map fst (mapModify k f ns))"
    using inv by (simp add: map_fst_mapModify nodesInv_def)
next
  fix p assume "p \<in> set (mapModify k f ns)"
  then have "p \<in> (\<lambda>p. if fst p = k then (fst p, f (snd p)) else p) ` set ns"
    by (simp only: set_mapModify)
  then obtain q where q: "q \<in> set ns" "p = (if fst q = k then (fst q, f (snd q)) else q)"
    by (rule imageE) blast
  show "nodeOk (snd p)"
  proof (cases "fst q = k")
    case True
    with q(1) inv have "map_of ns k = Some (snd q)"
      by (auto simp: nodesInv_def)
    from f[OF this] True q(2) show ?thesis by simp
  next
    case False
    with q inv show ?thesis by (auto simp: nodesInv_def)
  qed
  show "name (snd p) = fst p"
  proof (cases "fst q = k")
    case True
    with q(1) inv have "map_of ns k = Some (snd q)"
      by (auto simp: nodesInv_def)
    from f[OF this] True q inv show ?thesis by (auto simp: nodesInv_def)
  next
    case False
    with q inv show ?thesis by (auto simp: nodesInv_def)
  qed
qed

lemma nodesInv_lookup: "nodesInv ns \<Longrightarrow> map_of ns k = Some n \<Longrightarrow> nodeOk n \<and> name n = k"
  by (auto simp: nodesInv_def dest!: map_of_SomeD)

lemma nodesInv_adjacencyStep:
  assumes inv: "nodesInv ns"
  shows "nodesInv (adjacencyStep contracts edge ns)"
proof -
  let ?fc = "find (\<lambda>c. normalizePath (cargoTomlPath c) = normalizePath (edgeFrom edge)) contracts"
  let ?tc = "find (\<lambda>c. normalizePath (cargoTomlPath c) = normalizePath (edgeTo edge)) contracts"
  show ?thesis
  proof (cases "?fc")
    case None
    with inv show ?thesis by (simp add: adjacencyStep_def)
  next
    case fc: (Some fromContract)
    show ?thesis
    proof (cases "?tc")
      case None
      with inv fc show ?thesis by (simp add: adjacencyStep_def)
    next
      case tc: (Some toContract)
      show ?thesis
      proof (cases "map_of ns (contractName fromContract)")
        case None
        with inv fc tc show ?thesis by (simp add: adjacencyStep_def)
      next
        case fn: (Some fromNode)
        show ?thesis
        proof (cases "map_of ns (contractName toContract)")
          case None
          with inv fc tc fn show ?thesis by (simp add: adjacencyStep_def)
        next
          case tn: (Some toNode)
          define ns1 where "ns1 =
            (if name toNode \<notin> set (dependencies fromNode)
             then mapModify (contractName fromContract)
                    (\<lambda>n. n\<lparr>dependencies := dependencies n @ [name toNode],
                            dependencyCount := dependencyCount n + 1\<rparr>) ns
             else ns)"
          have inv1: "nodesInv ns1"
          proof (cases "name toNode \<notin> set (dependencies fromNode)")
            case True
            have "nodesInv (mapModify (contractName fromContract)
                    (\<lambda>n. n\<lparr>dependencies := dependencies n @ [name toNode],
                            dependencyCount := dependencyCount n + 1\<rparr>) ns)"
            proof (rule nodesInv_mapModify[OF inv])
              fix n assume "map_of ns (contractName fromContract) = Some n"
              with fn have "n = fromNode" by simp
              moreover have "nodeOk fromNode" using nodesInv_lookup[OF inv fn] by simp
              ultimately show "nodeOk (n\<lparr>dependencies := dependencies n @ [name toNode],
                            dependencyCount := dependencyCount n + 1\<rparr>) \<and>
                   name (n\<lparr>dependencies := dependencies n @ [name toNode],
                            dependencyCount := dependencyCount n + 1\<rparr>) = name n"
                using True by (simp add: nodeOk_def)
            qed
            with True show ?thesis by (simp add: ns1_def)
          next
            case False
            with inv show ?thesis by (simp add: ns1_def)
          qed
          have res: "adjacencyStep contracts edge ns =
            (case map_of ns1 (contractName toContract) of
               Some toNode' \<Rightarrow>
                 (if name fromNode \<notin> set (dependents toNode')
                  then mapModify (contractName toContract)
                         (\<lambda>n. n\<lparr>dependents := dependents n @ [name fromNode],
                                 dependentCount := dependentCount n + 1\<rparr>) ns1
                  else ns1)
             | None \<Rightarrow> ns1)"
            by (simp only: adjacencyStep_def ns1_def Let_def fc tc fn tn option.case prod.case)
          show ?thesis
          proof (cases "map_of ns1 (contractName toContract)")
            case None
            with res inv1 show ?thesis by simp
          next
            case tn': (Some toNode')
            show ?thesis
            proof (cases "name fromNode \<notin> set (dependents toNode')")
              case True
              have "nodesInv (mapModify (contractName toContract)
                         (\<lambda>n. n\<lparr>dependents := dependents n @ [name fromNode],
                                 dependentCount := dependentCount n + 1\<rparr>) ns1)"
              proof (rule nodesInv_mapModify[OF inv1])
                fix n assume "map_of ns1 (contractName toContract) = Some n"
                with tn' have "n = toNode'" by simp
                moreover have "nodeOk toNode'" using nodesInv_lookup[OF inv1 tn'] by simp
                ultimately show "nodeOk (n\<lparr>dependents := dependents n @ [name fromNode],
                                 dependentCount := dependentCount n + 1\<rparr>) \<and>
                     name (n\<lparr>dependents := dependents n @ [name fromNode],
                                 dependentCount := dependentCount n + 1\<rparr>) = name n"
                  using True by (simp add: nodeOk_def)
              qed
              with res tn' True show ?thesis by simp
            next
              case False
              with res tn' inv1 show ?thesis by simp
            qed
          qed
        qed
      qed
    qed
  qed
qed

lemma nodesInv_buildAdjacency: "nodesInv (buildAdjacency contracts es)"
proof -
  have "nodesInv ns \<Longrightarrow> nodesInv (fold (adjacencyStep contracts) es ns)" for ns
  proof (induction es arbitrary: ns)
    case Nil
    then show ?case by simp
  next
    case (Cons e es)
    from Cons.IH[OF nodesInv_adjacencyStep[OF Cons.prems]] show ?case by simp
  qed
  from this[OF nodesInv_initNodes] show ?thesis by (simp add: buildAdjacency_def)
qed

lemma nodeOk_depth: "nodeOk (n\<lparr>depth := d\<rparr>) = nodeOk n"
  by (simp add: nodeOk_def)

lemma nodesInv_eraseDepth: "nodesInv (eraseDepth ns) = nodesInv ns"
  by (simp add: nodesInv_def eraseDepth_def nodeOk_depth comp_def)

lemma nodesInv_calculateDepths: "nodesInv ns \<Longrightarrow> nodesInv (calculateDepths ns)"
  by (metis nodesInv_eraseDepth calculateDepths_erase)

lemma nodesInv_buildNodes: "nodesInv (buildNodes contracts es)"
  by (simp add: buildNodes_def nodesInv_calculateDepths nodesInv_buildAdjacency)

subsection \<open>The edge map\<close>

lemma edgeMapInv_mapSet:
  "edgeMapInv m \<Longrightarrow> k = edgeKey (edgeFrom e) (edgeTo e) \<Longrightarrow> edgeMapInv (mapSet k e m)"
  using set_mapSet_subset[of k e m]
  unfolding edgeMapInv_def by (auto simp: distinct_mapSet)

lemma edgeMapInv_mapModify:
  "edgeMapInv m \<Longrightarrow> (\<And>e. edgeFrom (f e) = edgeFrom e \<and> edgeTo (f e) = edgeTo e) \<Longrightarrow>
     edgeMapInv (mapModify k f m)"
  unfolding edgeMapInv_def by (auto simp: map_fst_mapModify set_mapModify)

lemma edgeMapInv_cargoEdgeStep: "edgeMapInv m \<Longrightarrow> edgeMapInv (cargoEdgeStep contracts edge m)"
  unfolding cargoEdgeStep_def Let_def by (rule edgeMapInv_mapSet) simp_all

lemma edgeMapInv_importStep: "edgeMapInv m \<Longrightarrow> edgeMapInv (importStep contracts imp m)"
  unfolding importStep_def Let_def
  by (auto split: option.splits intro!: edgeMapInv_mapSet edgeMapInv_mapModify)

lemma edgeMapInv_fold:
  "(\<And>x m. edgeMapInv m \<Longrightarrow> edgeMapInv (f x m)) \<Longrightarrow> edgeMapInv m \<Longrightarrow> edgeMapInv (fold f xs m)"
  by (induction xs arbitrary: m) auto

lemma edgeMapInv_buildEdgeMap: "edgeMapInv (buildEdgeMap cargoEdges imps contracts)"
  unfolding buildEdgeMap_def
  by (intro edgeMapInv_fold edgeMapInv_importStep edgeMapInv_cargoEdgeStep)
     (simp_all add: edgeMapInv_def)

lemma distinct_map_outer: "distinct (map (\<lambda>x. f (g x)) xs) \<Longrightarrow> distinct (map g xs)"
  by (induction xs) auto

lemma edgeMapInv_distinct_pairs:
  assumes "edgeMapInv m"
  shows "distinct (map (\<lambda>e. (edgeFrom e, edgeTo e)) (map snd m))"
proof -
  have "map fst m = map (\<lambda>p. edgeKey (edgeFrom (snd p)) (edgeTo (snd p))) m"
    using assms by (intro map_cong) (auto simp: edgeMapInv_def)
  with assms have "distinct (map (\<lambda>p. case_prod edgeKey (edgeFrom (snd p), edgeTo (snd p))) m)"
    by (simp add: edgeMapInv_def)
  then have "distinct (map (\<lambda>p. (edgeFrom (snd p), edgeTo (snd p))) m)"
    by (rule distinct_map_outer)
  then show ?thesis by (simp add: comp_def)
qed

lemma importsOf_confirm:
  "importsOf (e\<lparr>source := Both,
       edgeImports := Some ((case edgeImports e of Some is \<Rightarrow> is | None \<Rightarrow> []) @ [imp])\<rparr>) =
     importsOf e @ [imp]"
  by (simp add: importsOf_def)

lemma importStep_cases:
  obtains (skip) "importStep contracts imp m = m"
      "map_of (contractByName contracts) (toLowerCase (sourceContract imp)) = None \<or>
       map_of (contractByName contracts) (toLowerCase (importedModule imp)) = None"
    | (confirm) sc tc existing where
      "map_of (contractByName contracts) (toLowerCase (sourceContract imp)) = Some sc"
      "map_of (contractByName contracts) (toLowerCase (importedModule imp)) = Some tc"
      "map_of m (edgeKey (cargoTomlPath sc) (cargoTomlPath tc)) = Some existing"
      "importStep contracts imp m =
         mapModify (edgeKey (cargoTomlPath sc) (cargoTomlPath tc))
           (\<lambda>e. e\<lparr>source := Both,
              edgeImports := Some ((case edgeImports e of Some is \<Rightarrow> is | None \<Rightarrow> []) @ [imp])\<rparr>) m"
    | (synthesize) sc tc where
      "map_of (contractByName contracts) (toLowerCase (sourceContract imp)) = Some sc"
      "map_of (contractByName contracts) (toLowerCase (importedModule imp)) = Some tc"
      "map_of m (edgeKey (cargoTomlPath sc) (cargoTomlPath tc)) = None"
      "importStep contracts imp m =
         mapSet (edgeKey (cargoTomlPath sc) (cargoTomlPath tc))
           \<lparr>edgeFrom = cargoTomlPath sc, edgeTo = cargoTomlPath tc,
            reason = ''workspace'', dependencyName = importedModule imp,
            source = Import, edgeImports = Some [imp], edgeIsExternal = False,
            cargoMetadata = None\<rparr> m"
proof (cases "map_of (contractByName contracts) (toLowerCase (sourceContract imp))")
  case None
  then show ?thesis by (intro skip) (simp_all add: importStep_def)
next
  case sc: (Some sc)
  show ?thesis
  proof (cases "map_of (contractByName contracts) (toLowerCase (importedModule imp))")
    case None
    with sc show ?thesis by (intro skip) (simp_all add: importStep_def)
  next
    case tc: (Some tc)
    show ?thesis
    proof (cases "map_of m (edgeKey (cargoTomlPath sc) (cargoTomlPath tc))")
      case None
      with sc tc show ?thesis by (intro synthesize[of sc tc]) (simp_all add: importStep_def)
    next
      case (Some existing)
      with sc tc show ?thesis by (intro confirm[of sc tc existing]) (simp_all add: importStep_def)
    qed
  qed
qed

lemma attached_importStep_new:
  assumes s: "map_of (contractByName contracts) (toLowerCase (sourceContract imp)) = Some sc"
    and t: "map_of (contractByName contracts) (toLowerCase (importedModule imp)) = Some tc"
  shows "attached (importStep contracts imp m) (edgeKey (cargoTomlPath sc) (cargoTomlPath tc)) imp"
proof (cases rule: importStep_cases[where contracts=contracts and imp=imp and m=m])
  case skip
  with s t show ?thesis by simp
next
  case (confirm sc' tc' existing)
  with s t have [simp]: "sc' = sc" "tc' = tc" by simp_all
  from confirm(3,4) show ?thesis
    by (simp add: attached_def map_of_mapModify importsOf_confirm)
next
  case (synthesize sc' tc')
  with s t have [simp]: "sc' = sc" "tc' = tc" by simp_all
  from synthesize(4) show ?thesis
    by (simp add: attached_def map_of_mapSet importsOf_def)
qed

lemma attached_importStep_keep:
  assumes a: "attached m k x"
  shows "attached (importStep contracts imp m) k x"
proof (cases rule: importStep_cases[where contracts=contracts and imp=imp and m=m])
  case skip
  with a show ?thesis by simp
next
  case (confirm sc tc existing)
  from a obtain e where e: "map_of m k = Some e" "x \<in> set (importsOf e)"
    by (auto simp: attached_def)
  then show ?thesis
    unfolding attached_def confirm(4)
    by (auto simp: map_of_mapModify importsOf_confirm)
next
  case (synthesize sc tc)
  from a obtain e where e: "map_of m k = Some e" "x \<in> set (importsOf e)"
    by (auto simp: attached_def)
  with synthesize(3) have "k \<noteq> edgeKey (cargoTomlPath sc) (cargoTomlPath tc)" by auto
  with e show ?thesis
    unfolding attached_def synthesize(4) by (simp add: map_of_mapSet)
qed

lemma attached_fold_keep: "attached m k x \<Longrightarrow> attached (fold (importStep contracts) imps m) k x"
  by (induction imps arbitrary: m) (auto intro: attached_importStep_keep)

lemma attached_fold_imports:
  assumes "imp \<in> set imps"
    and "map_of (contractByName contracts) (toLowerCase (sourceContract imp)) = Some sc"
    and "map_of (contractByName contracts) (toLowerCase (importedModule imp)) = Some tc"
  shows "attached (fold (importStep contracts) imps m) (edgeKey (cargoTomlPath sc) (cargoTomlPath tc)) imp"
  using assms(1)
proof (induction imps arbitrary: m)
  case Nil
  then show ?case by simp
next
  case (Cons i imps)
  show ?case
  proof (cases "imp = i")
    case True
    have "attached (importStep contracts i m) (edgeKey (cargoTomlPath sc) (cargoTomlPath tc)) imp"
      unfolding True[symmetric] using assms(2,3) by (rule attached_importStep_new)
    then show ?thesis by (simp add: attached_fold_keep)
  next
    case False
    with Cons.prems have "imp \<in> set imps" by simp
    from Cons.IH[OF this] show ?thesis by simp
  qed
qed

lemma buildDependencyGraph_nodes:
  "nodes (fst (buildDependencyGraph r host t contracts opts svc)) =
     buildNodes contracts (edges (fst (buildDependencyGraph r host t contracts opts svc)))"
  by (simp add: buildDependencyGraph_def Let_def)

lemma buildDependencyGraph_edges:
  "edges (fst (buildDependencyGraph r host t contracts opts svc)) =
     map snd (buildEdgeMap (resEdges (r contracts (includeDevDependencies opts)))
       (graphImports (fst (buildDependencyGraph r host t contracts opts svc))) contracts)"
  by (simp add: buildDependencyGraph_def Let_def buildEnhancedEdges_def)

text \<open>
  Claim C9 (edge and adjacency uniqueness). In the graph that \<^verbatim>\<open>buildDependencyGraph\<close>
  returns, no two edges have the same ordered pair (from, to); every node's
  \<^verbatim>\<open>dependencies\<close> and \<^verbatim>\<open>dependents\<close> are free of duplicates and the two counts
  are the lengths of the two lists; and every import whose two names resolve to contracts
  is on the imports list of the one edge stored under the key of its pair.
\<close>

theorem edge_and_adjacency_uniqueness:
  assumes g: "g = fst (buildDependencyGraph r host t contracts opts svc)"
  shows "distinct (map (\<lambda>e. (edgeFrom e, edgeTo e)) (edges g)) \<and>
    (\<forall>p\<in>set (nodes g).
       distinct (dependencies (snd p)) \<and> distinct (dependents (snd p)) \<and>
       dependencyCount (snd p) = length (dependencies (snd p)) \<and>
       dependentCount (snd p) = length (dependents (snd p))) \<and>
    (\<forall>imp\<in>set (graphImports g). \<forall>sc tc.
       map_of (contractByName contracts) (toLowerCase (sourceContract imp)) = Some sc \<longrightarrow>
       map_of (contractByName contracts) (toLowerCase (importedModule imp)) = Some tc \<longrightarrow>
       (\<exists>e\<in>set (edges g).
          edgeKey (edgeFrom e) (edgeTo e) = edgeKey (cargoTomlPath sc) (cargoTomlPath tc) \<and>
          imp \<in> set (importsOf e)))"
proof (intro conjI ballI allI impI)
  let ?m = "buildEdgeMap (resEdges (r contracts (includeDevDependencies opts))) (graphImports g) contracts"
  have es: "edges g = map snd ?m" unfolding g by (rule buildDependencyGraph_edges)
  have inv: "edgeMapInv ?m" by (rule edgeMapInv_buildEdgeMap)
  show "distinct (map (\<lambda>e. (edgeFrom e, edgeTo e)) (edges g))"
    unfolding es using inv by (rule edgeMapInv_distinct_pairs)
  have ninv: "nodesInv (nodes g)"
    unfolding g buildDependencyGraph_nodes by (rule nodesInv_buildNodes)
  {
    fix p assume "p \<in> set (nodes g)"
    with ninv have ok: "nodeOk (snd p)" by (simp add: nodesInv_def)
    from ok show "distinct (dependencies (snd p))" by (simp add: nodeOk_def)
    from ok show "distinct (dependents (snd p))" by (simp add: nodeOk_def)
    from ok show "dependencyCount (snd p) = length (dependencies (snd p))" by (simp add: nodeOk_def)
    from ok show "dependentCount (snd p) = length (dependents (snd p))" by (simp add: nodeOk_def)
  }
  fix imp sc tc
  assume i: "imp \<in> set (graphImports g)"
    and s: "map_of (contractByName contracts) (toLowerCase (sourceContract imp)) = Some sc"
    and t: "map_of (contractByName contracts) (toLowerCase (importedModule imp)) = Some tc"
  have "attached ?m (edgeKey (cargoTomlPath sc) (cargoTomlPath tc)) imp"
    unfolding buildEdgeMap_def using i s t by (rule attached_fold_imports)
  then obtain e where e: "map_of ?m (edgeKey (cargoTomlPath sc) (cargoTomlPath tc)) = Some e"
    "imp \<in> set (importsOf e)" by (auto simp: attached_def)
  from e(1) have mem: "(edgeKey (cargoTomlPath sc) (cargoTomlPath tc), e) \<in> set ?m"
    by (rule map_of_SomeD)
  with inv have "edgeKey (cargoTomlPath sc) (cargoTomlPath tc) = edgeKey (edgeFrom e) (edgeTo e)"
    by (force simp: edgeMapInv_def)
  moreover from mem have "e \<in> set (edges g)" unfolding es by force
  ultimately show "\<exists>e\<in>set (edges g).
          edgeKey (edgeFrom e) (edgeTo e) = edgeKey (cargoTomlPath sc) (cargoTomlPath tc) \<and>
          imp \<in> set (importsOf e)"
    using e(2) by auto
qed

lemma depRel_eraseDepth: "eraseDepth a = eraseDepth b \<Longrightarrow> depRel a = depRel b"
proof -
  assume "eraseDepth a = eraseDepth b"
  then have "depsOf a k = depsOf b k" for k by (rule eraseDepth_depsOf)
  then show ?thesis by (simp only: depRel_def)
qed

text \<open>
  Claim C5 (depth recurrence). When the adjacency lists of the graph that
  \<^verbatim>\<open>buildDependencyGraph\<close> returns form an acyclic relation, every node has depth 0 if
  it has no dependencies and otherwise 1 plus the greatest depth among its dependencies.
\<close>

theorem depth_recurrence_acyclic:
  assumes g: "g = fst (buildDependencyGraph r host t contracts opts svc)"
    and ac: "acyclic (set (depEdges (nodes g)))"
  shows "\<forall>p\<in>set (nodes g).
           depth (snd p) =
             (if dependencies (snd p) = [] then 0
              else 1 + mathMax (map (depthOf (nodes g)) (dependencies (snd p))))"
proof
  fix p assume p: "p \<in> set (nodes g)"
  let ?ns0 = "buildAdjacency contracts (edges g)"
  have n: "nodes g = calculateDepths ?ns0"
    unfolding g buildDependencyGraph_nodes by (simp add: buildNodes_def)
  have "depRel ?ns0 = depRel (nodes g)"
    unfolding n by (rule depRel_eraseDepth[symmetric]) (rule calculateDepths_erase)
  moreover have "acyclic (depRel (nodes g))"
    using depRel_subset_depEdges ac by (rule acyclic_subset[rotated])
  ultimately have ac0: "acyclic (depRel ?ns0)" by simp
  have ninv: "nodesInv (nodes g)"
    unfolding g buildDependencyGraph_nodes by (rule nodesInv_buildNodes)
  with p have look: "map_of (nodes g) (fst p) = Some (snd p)"
    by (simp add: nodesInv_def)
  from calculateDepths_recurrence[OF ac0, of "fst p"] look show
    "depth (snd p) =
       (if dependencies (snd p) = [] then 0
        else 1 + mathMax (map (depthOf (nodes g)) (dependencies (snd p))))"
    unfolding n[symmetric] by (simp add: depthOf_def depsOf_def)
qed

lemma exampleGraph_depEdges: "depEdges (nodes exampleGraph) = [(''alpha'', ''beta''), (''beta'', ''gamma'')]"
  by code_simp

lemma exampleGraph_depths:
  "map (\<lambda>p. (fst p, depth (snd p))) (nodes exampleGraph) = [(''alpha'', 2), (''beta'', 1), (''gamma'', 0)]"
  by code_simp

text \<open>
  Claim C5, witness: the chain alpha, beta, gamma is acyclic and gets the depths 2, 1, 0.
\<close>

theorem depth_recurrence_acyclic_witness:
  "acyclic (set (depEdges (nodes exampleGraph))) \<and>
   list_all (\<lambda>p. depth (snd p) =
       (if dependencies (snd p) = [] then 0
        else 1 + mathMax (map (depthOf (nodes exampleGraph)) (dependencies (snd p)))))
     (nodes exampleGraph) \<and>
   map (\<lambda>p. (fst p, depth (snd p))) (nodes exampleGraph) =
     [(''alpha'', 2), (''beta'', 1), (''gamma'', 0)]"
proof -
  have ac: "acyclic (set (depEdges (nodes exampleGraph)))"
    unfolding exampleGraph_depEdges
    by (rule acyclicI_order[where f = "\<lambda>x. if x = ''alpha'' then 2 else if x = ''beta'' then 1 else (0::nat)"]) auto
  from depth_recurrence_acyclic[OF exampleGraph_def ac]
  have r: "list_all (\<lambda>p. depth (snd p) =
       (if dependencies (snd p) = [] then 0
        else 1 + mathMax (map (depthOf (nodes exampleGraph)) (dependencies (snd p)))))
     (nodes exampleGraph)"
    by (simp only: list_all_iff)
  from ac r exampleGraph_depths show ?thesis by (intro conjI)
qed

section \<open>Fault isolation of the import scanner\<close>

declare findSourceFiles.simps [simp del]

lemma findSourceFiles_entries:
  "findSourceFiles host dir exts maxD cur =
     (if int cur > maxD then []
      else (case readdirSync host dir of
              Inl err \<Rightarrow> []
            | Inr entries \<Rightarrow> concat (map (entryFiles host dir exts maxD cur) entries)))"
  unfolding entryFiles_def[abs_def] by (rule findSourceFiles.simps)

lemma failReads_same [simp]:
  "readdirSync (failReads B err host) = readdirSync host"
  "pathJoin (failReads B err host) = pathJoin host"
  by (simp_all add: failReads_def)

lemma findSourceFiles_failReads:
  "findSourceFiles (failReads B err host) dir exts maxD cur = findSourceFiles host dir exts maxD cur"
proof (induction host dir exts maxD cur rule: findSourceFiles.induct)
  case (1 host dir extensions maxDepth' currentDepth)
  show ?case
  proof (cases "int currentDepth > maxDepth'")
    case True
    then show ?thesis by (simp add: findSourceFiles_entries[of _ dir])
  next
    case False
    show ?thesis
    proof (cases "readdirSync host dir")
      case (Inl e)
      with False show ?thesis by (simp add: findSourceFiles_entries[of _ dir])
    next
      case (Inr entries)
      have "entryFiles (failReads B err host) dir extensions maxDepth' currentDepth entry =
            entryFiles host dir extensions maxDepth' currentDepth entry"
        if "entry \<in> set entries" for entry
      proof (cases "direntKind entry")
        case IsDirectory
        with "1.IH"[OF False Inr that] show ?thesis
          by (simp add: entryFiles_def)
      next
        case IsFile
        then show ?thesis by (simp add: entryFiles_def)
      next
        case IsOther
        then show ?thesis by (simp add: entryFiles_def)
      qed
      then have "map (entryFiles (failReads B err host) dir extensions maxDepth' currentDepth) entries =
                 map (entryFiles host dir extensions maxDepth' currentDepth) entries"
        by (intro map_cong) auto
      then show ?thesis
        by (simp only: findSourceFiles_entries[of _ dir] failReads_same Inr sum.case)
    qed
  qed
qed

lemma parseLine_sourceFile: "i \<in> set (parseLine filePath cn lineNo raw) \<Longrightarrow> sourceFile i = filePath"
  by (auto simp: parseLine_def Let_def split: option.splits)

lemma parseContent_sourceFile: "i \<in> set (parseContent filePath cn content) \<Longrightarrow> sourceFile i = filePath"
  by (auto simp: parseContent_def Let_def dest: parseLine_sourceFile)

lemma parseImportsFromFile_sourceFile:
  "i \<in> set (parseImportsFromFile host filePath cn ctp) \<Longrightarrow> sourceFile i = filePath"
  by (auto simp: parseImportsFromFile_def dest: parseContent_sourceFile split: sum.splits)

lemma parseImportsFromFile_failReads:
  "parseImportsFromFile (failReads B err host) filePath cn ctp =
     filter (\<lambda>i. sourceFile i \<notin> B) (parseImportsFromFile host filePath cn ctp)"
proof (cases "filePath \<in> B")
  case True
  then have "\<forall>i\<in>set (parseImportsFromFile host filePath cn ctp). \<not> sourceFile i \<notin> B"
    by (auto dest: parseImportsFromFile_sourceFile)
  then have "filter (\<lambda>i. sourceFile i \<notin> B) (parseImportsFromFile host filePath cn ctp) = []"
    by (simp only: filter_False)
  with True show ?thesis by (simp add: parseImportsFromFile_def failReads_def)
next
  case False
  then have "\<forall>i\<in>set (parseImportsFromFile host filePath cn ctp). sourceFile i \<notin> B"
    by (auto dest: parseImportsFromFile_sourceFile)
  then have "filter (\<lambda>i. sourceFile i \<notin> B) (parseImportsFromFile host filePath cn ctp) =
      parseImportsFromFile host filePath cn ctp"
    by (simp only: filter_True)
  with False show ?thesis by (simp add: parseImportsFromFile_def failReads_def)
qed

lemma filter_concat_map: "filter P (concat (map f xs)) = concat (map (\<lambda>x. filter P (f x)) xs)"
  by (induction xs) auto

lemma detectImportDependencies_failReads:
  "detectImportDependencies (failReads B err host) contracts opts =
     filter (\<lambda>i. sourceFile i \<notin> B) (detectImportDependencies host contracts opts)"
  by (simp add: detectImportDependencies_def findSourceFiles_failReads
      parseImportsFromFile_failReads filter_concat_map)

text \<open>
  Claim C8 (fault isolation in the import scanner). Every fallible call of the scanner is
  a value of the model and every one is caught, so \<^verbatim>\<open>detectImportDependencies\<close> has
  no error outcome. A directory whose listing fails yields no files, also as an entry of
  its parent, whose other entries are scanned as usual; a file whose read fails yields no
  records; and making the reads of any set \<open>B\<close> of files fail removes exactly the records
  of those files from the result, in place.
\<close>

theorem import_scan_fault_isolation:
  "(readdirSync host dir = Inl e \<longrightarrow> findSourceFiles host dir exts maxD cur = []) \<and>
   (readFileSync host filePath = Inl e \<longrightarrow> parseImportsFromFile host filePath cn ctp = []) \<and>
   (direntKind entry = IsDirectory \<longrightarrow>
      readdirSync host (pathJoin host dir (direntName entry)) = Inl e \<longrightarrow>
      entryFiles host dir exts maxD cur entry = []) \<and>
   (readdirSync host dir = Inr entries \<longrightarrow> int cur \<le> maxD \<longrightarrow>
      findSourceFiles host dir exts maxD cur =
        concat (map (entryFiles host dir exts maxD cur) entries)) \<and>
   detectImportDependencies (failReads B err host) contracts opts =
     filter (\<lambda>i. sourceFile i \<notin> B) (detectImportDependencies host contracts opts)"
proof (intro conjI impI)
  show "findSourceFiles host dir exts maxD cur = []" if "readdirSync host dir = Inl e"
    using that by (simp add: findSourceFiles_entries[of _ dir])
  show "parseImportsFromFile host filePath cn ctp = []" if "readFileSync host filePath = Inl e"
    using that by (simp add: parseImportsFromFile_def)
  show "entryFiles host dir exts maxD cur entry = []"
    if "direntKind entry = IsDirectory"
      and "readdirSync host (pathJoin host dir (direntName entry)) = Inl e"
    using that by (simp add: entryFiles_def findSourceFiles_entries[of _ "pathJoin host dir (direntName entry)"])
  show "findSourceFiles host dir exts maxD cur =
        concat (map (entryFiles host dir exts maxD cur) entries)"
    if "readdirSync host dir = Inr entries" and "int cur \<le> maxD"
    using that by (simp add: findSourceFiles_entries[of _ dir])
  show "detectImportDependencies (failReads B err host) contracts opts =
     filter (\<lambda>i. sourceFile i \<notin> B) (detectImportDependencies host contracts opts)"
    by (rule detectImportDependencies_failReads)
qed

lemma exampleHost_imports:
  "detectImportDependencies exampleHost alphaOnly defaultOptions =
     [importRecord ExternCrate ''gamma'' ''/ws/a/src/util.rs'' 1 ''extern crate gamma ;'',
      importRecord Mod ''helpers'' ''/ws/a/src/util.rs'' 2 ''mod helpers;'',
      importRecord Use ''beta'' ''/ws/a/src/lib.rs'' 1 ''use beta::Thing;'',
      importRecord Use ''beta'' ''/ws/a/src/lib.rs'' 2 ''use beta::Other;'']"
  by code_simp

text \<open>
  Claim C8, witness: a contract directory with an unlistable subdirectory and two source
  files; when the read of one of them fails, the records of the other are still returned.
\<close>

theorem import_scan_fault_isolation_witness:
  "readdirSync exampleHost ''/ws/a/locked'' = Inl (Error ''EACCES'') \<and>
   findSourceFiles exampleHost ''/ws/a/locked'' [''.rs''] 3 1 = [] \<and>
   findSourceFiles exampleHost ''/ws/a'' [''.rs''] 3 0 = [''/ws/a/src/util.rs'', ''/ws/a/src/lib.rs''] \<and>
   readFileSync (failReads {''/ws/a/src/util.rs''} (Error ''EIO'') exampleHost) ''/ws/a/src/util.rs''
     = Inl (Error ''EIO'') \<and>
   detectImportDependencies (failReads {''/ws/a/src/util.rs''} (Error ''EIO'') exampleHost)
       alphaOnly defaultOptions =
     [importRecord Use ''beta'' ''/ws/a/src/lib.rs'' 1 ''use beta::Thing;'',
      importRecord Use ''beta'' ''/ws/a/src/lib.rs'' 2 ''use beta::Other;'']"
proof -
  note t = import_scan_fault_isolation[where host = exampleHost and dir = "''/ws/a/locked''"
      and e = "Error ''EACCES''" and exts = "[''.rs'']" and maxD = 3 and cur = 1
      and filePath = "''/ws/a/src/none.rs''" and cn = "''alpha''" and ctp = "''/ws/a/Cargo.toml''"
      and entry = "\<lparr>direntName = ''locked'', direntKind = IsDirectory\<rparr>" and entries = "[]"
      and B = "{''/ws/a/src/util.rs''}" and err = "Error ''EIO''" and contracts = alphaOnly
      and opts = defaultOptions]
  have a: "readdirSync exampleHost ''/ws/a/locked'' = Inl (Error ''EACCES'')"
    by (simp add: exampleHost_def)
  from t a have b: "findSourceFiles exampleHost ''/ws/a/locked'' [''.rs''] 3 1 = []"
    by blast
  have c: "findSourceFiles exampleHost ''/ws/a'' [''.rs''] 3 0 = [''/ws/a/src/util.rs'', ''/ws/a/src/lib.rs'']"
    by code_simp
  have d: "readFileSync (failReads {''/ws/a/src/util.rs''} (Error ''EIO'') exampleHost) ''/ws/a/src/util.rs''
     = Inl (Error ''EIO'')"
    by (simp add: failReads_def)
  from t have "detectImportDependencies (failReads {''/ws/a/src/util.rs''} (Error ''EIO'') exampleHost)
       alphaOnly defaultOptions =
     filter (\<lambda>i. sourceFile i \<notin> {''/ws/a/src/util.rs''})
       (detectImportDependencies exampleHost alphaOnly defaultOptions)"
    by (elim conjE)
  then have e: "detectImportDependencies (failReads {''/ws/a/src/util.rs''} (Error ''EIO'') exampleHost)
       alphaOnly defaultOptions =
     [importRecord Use ''beta'' ''/ws/a/src/lib.rs'' 1 ''use beta::Thing;'',
      importRecord Use ''beta'' ''/ws/a/src/lib.rs'' 2 ''use beta::Other;'']"
    by (simp add: exampleHost_imports importRecord_def)
  from a b c d e show ?thesis by (intro conjI)
qed

section \<open>Merging imports into the edge map\<close>

lemma mapSet_absent: "map_of m k = None \<Longrightarrow> mapSet k v m = m @ [(k, v)]"
  by (induction m) (auto split: if_splits)

lemma import_confirms_existing_edge:
  assumes s: "map_of (contractByName contracts) (toLowerCase (sourceContract imp)) = Some sc"
    and t: "map_of (contractByName contracts) (toLowerCase (importedModule imp)) = Some tc"
    and x: "map_of m (edgeKey (cargoTomlPath sc) (cargoTomlPath tc)) = Some existing"
  shows "length (importStep contracts imp m) = length m \<and>
         map fst (importStep contracts imp m) = map fst m \<and>
         map_of (importStep contracts imp m) (edgeKey (cargoTomlPath sc) (cargoTomlPath tc)) =
           Some (existing\<lparr>source := Both, edgeImports := Some (importsOf existing @ [imp])\<rparr>)"
proof (cases rule: importStep_cases[where contracts=contracts and imp=imp and m=m])
  case skip
  with s t show ?thesis by simp
next
  case (confirm sc' tc' existing')
  with s t have [simp]: "sc' = sc" "tc' = tc" by simp_all
  have "length (mapModify k f m) = length m" for k and f :: "EnhancedDependencyEdge \<Rightarrow> EnhancedDependencyEdge"
    by (simp add: mapModify_def)
  with confirm(4) x show ?thesis
    by (simp add: map_of_mapModify map_fst_mapModify importsOf_def)
next
  case (synthesize sc' tc')
  with s t x show ?thesis by simp
qed

lemma import_synthesizes_edge:
  assumes s: "map_of (contractByName contracts) (toLowerCase (sourceContract imp)) = Some sc"
    and t: "map_of (contractByName contracts) (toLowerCase (importedModule imp)) = Some tc"
    and x: "map_of m (edgeKey (cargoTomlPath sc) (cargoTomlPath tc)) = None"
  shows "importStep contracts imp m =
           m @ [(edgeKey (cargoTomlPath sc) (cargoTomlPath tc),
                 \<lparr>edgeFrom = cargoTomlPath sc, edgeTo = cargoTomlPath tc,
                  reason = ''workspace'', dependencyName = importedModule imp,
                  source = Import, edgeImports = Some [imp], edgeIsExternal = False,
                  cargoMetadata = None\<rparr>)]"
proof (cases rule: importStep_cases[where contracts=contracts and imp=imp and m=m])
  case skip
  with s t show ?thesis by simp
next
  case (confirm sc' tc' existing')
  with s t x show ?thesis by simp
next
  case (synthesize sc' tc')
  with s t have [simp]: "sc' = sc" "tc' = tc" by simp_all
  from synthesize(4) x show ?thesis by (simp add: mapSet_absent)
qed

text \<open>
  Claim C3 (merging an import into the edges). The two lemmas above are the two branches
  of one step. The claim fails on the result of the whole loop: the branch that the
  source comments as "Import confirms Cargo.toml dependency" is also taken when the edge
  found under the key was synthesized by an earlier import. A contract alpha whose
  \<^verbatim>\<open>lib.rs\<close> has two \<^verbatim>\<open>use beta::...\<close> lines, with no manifest edge at all, gets one
  edge from alpha to beta whose source is \<^verbatim>\<open>both\<close>, not \<^verbatim>\<open>import\<close>.
\<close>

theorem repeated_import_marked_both:
  "resEdges (noEdgesResolver importContracts False) = [] \<and>
   map (\<lambda>i. (sourceContract i, importedModule i, lineNumber i))
     (graphImports (fst (buildDependencyGraph noEdgesResolver exampleHost 1000 importContracts
        defaultOptions initialService))) =
     [(''alpha'', ''gamma'', 1), (''alpha'', ''helpers'', 2),
      (''alpha'', ''beta'', 1), (''alpha'', ''beta'', 2)] \<and>
   map (\<lambda>e. (edgeFrom e, edgeTo e, source e, map lineNumber (importsOf e), cargoMetadata e))
     (edges (fst (buildDependencyGraph noEdgesResolver exampleHost 1000 importContracts
        defaultOptions initialService))) =
     [(''/ws/a/Cargo.toml'', ''/ws/b/Cargo.toml'', Both, [1, 2], None)]"
  by code_simp

section \<open>A merged edge\<close>

lemma mergedGraph_edges:
  "map (\<lambda>e. (edgeFrom e, edgeTo e, source e, map lineNumber (importsOf e))) (edges mergedGraph) =
     [(''/ws/a/Cargo.toml'', ''/ws/b/Cargo.toml'', Both, [1, 2])]"
  by code_simp

lemma mergedGraph_nodes:
  "map (\<lambda>p. (fst p, dependencies (snd p), dependents (snd p), dependencyCount (snd p),
              dependentCount (snd p))) (nodes mergedGraph) =
     [(''alpha'', [''beta''], [], 1, 0), (''beta'', [], [''alpha''], 0, 1)]"
  by code_simp

lemma mergedGraph_import:
  "importRecord Use ''beta'' ''/ws/a/src/lib.rs'' 2 ''use beta::Other;'' \<in> set (graphImports mergedGraph)"
  by code_simp

lemma mergeContracts_alpha:
  "map_of (contractByName mergeContracts)
     (toLowerCase (sourceContract (importRecord Use ''beta'' ''/ws/a/src/lib.rs'' 2 ''use beta::Other;'')))
   = Some (mockContract ''alpha'' ''/ws/a'' [''beta''])"
  by code_simp

lemma mergeContracts_beta:
  "map_of (contractByName mergeContracts)
     (toLowerCase (importedModule (importRecord Use ''beta'' ''/ws/a/src/lib.rs'' 2 ''use beta::Other;'')))
   = Some (mockContract ''beta'' ''/ws/b'' [])"
  by code_simp

text \<open>
  Claim C9, witness: alpha declares beta in its manifest and imports it on two source
  lines. The graph has one edge for the pair, marked \<^verbatim>\<open>both\<close>, with the two imports on
  its list, and one adjacency entry on each side.
\<close>

theorem edge_and_adjacency_uniqueness_witness:
  "distinct (map (\<lambda>e. (edgeFrom e, edgeTo e)) (edges mergedGraph)) \<and>
   map (\<lambda>e. (edgeFrom e, edgeTo e, source e, map lineNumber (importsOf e))) (edges mergedGraph) =
     [(''/ws/a/Cargo.toml'', ''/ws/b/Cargo.toml'', Both, [1, 2])] \<and>
   list_all (\<lambda>p. distinct (dependencies (snd p)) \<and> distinct (dependents (snd p)) \<and>
       dependencyCount (snd p) = length (dependencies (snd p)) \<and>
       dependentCount (snd p) = length (dependents (snd p))) (nodes mergedGraph) \<and>
   map (\<lambda>p. (fst p, dependencies (snd p), dependents (snd p), dependencyCount (snd p),
              dependentCount (snd p))) (nodes mergedGraph) =
     [(''alpha'', [''beta''], [], 1, 0), (''beta'', [], [''alpha''], 0, 1)] \<and>
   importRecord Use ''beta'' ''/ws/a/src/lib.rs'' 2 ''use beta::Other;'' \<in> set (graphImports mergedGraph) \<and>
   list_ex (\<lambda>e. edgeKey (edgeFrom e) (edgeTo e) =
                  edgeKey (cargoTomlPath (mockContract ''alpha'' ''/ws/a'' [''beta'']))
                    (cargoTomlPath (mockContract ''beta'' ''/ws/b'' [])) \<and>
                importRecord Use ''beta'' ''/ws/a/src/lib.rs'' 2 ''use beta::Other;'' \<in> set (importsOf e))
     (edges mergedGraph)"
proof -
  note t = edge_and_adjacency_uniqueness[OF mergedGraph_def]
  from t have d: "distinct (map (\<lambda>e. (edgeFrom e, edgeTo e)) (edges mergedGraph))"
    by (rule conjunct1)
  from t have "\<forall>p\<in>set (nodes mergedGraph).
       distinct (dependencies (snd p)) \<and> distinct (dependents (snd p)) \<and>
       dependencyCount (snd p) = length (dependencies (snd p)) \<and>
       dependentCount (snd p) = length (dependents (snd p))"
    by (elim conjE)
  then have n: "list_all (\<lambda>p. distinct (dependencies (snd p)) \<and> distinct (dependents (snd p)) \<and>
       dependencyCount (snd p) = length (dependencies (snd p)) \<and>
       dependentCount (snd p) = length (dependents (snd p))) (nodes mergedGraph)"
    by (simp only: list_all_iff)
  from t have "\<forall>imp\<in>set (graphImports mergedGraph). \<forall>sc tc.
       map_of (contractByName mergeContracts) (toLowerCase (sourceContract imp)) = Some sc \<longrightarrow>
       map_of (contractByName mergeContracts) (toLowerCase (importedModule imp)) = Some tc \<longrightarrow>
       (\<exists>e\<in>set (edges mergedGraph).
          edgeKey (edgeFrom e) (edgeTo e) = edgeKey (cargoTomlPath sc) (cargoTomlPath tc) \<and>
          imp \<in> set (importsOf e))"
    by (elim conjE)
  with mergedGraph_import mergeContracts_alpha mergeContracts_beta
  have "\<exists>e\<in>set (edges mergedGraph).
          edgeKey (edgeFrom e) (edgeTo e) =
            edgeKey (cargoTomlPath (mockContract ''alpha'' ''/ws/a'' [''beta'']))
              (cargoTomlPath (mockContract ''beta'' ''/ws/b'' [])) \<and>
          importRecord Use ''beta'' ''/ws/a/src/lib.rs'' 2 ''use beta::Other;'' \<in> set (importsOf e)"
    by blast
  then have x: "list_ex (\<lambda>e. edgeKey (edgeFrom e) (edgeTo e) =
                  edgeKey (cargoTomlPath (mockContract ''alpha'' ''/ws/a'' [''beta'']))
                    (cargoTomlPath (mockContract ''beta'' ''/ws/b'' [])) \<and>
                importRecord Use ''beta'' ''/ws/a/src/lib.rs'' 2 ''use beta::Other;'' \<in> set (importsOf e))
     (edges mergedGraph)"
    by (simp only: list_ex_iff)
  from d mergedGraph_edges n mergedGraph_nodes mergedGraph_import x show ?thesis by (intro conjI)
qed

section \<open>The cache\<close>

lemma buildDependencyGraph_cache:
  "snd (buildDependencyGraph r h t cs opts svc) =
     svc\<lparr>cachedGraph := Some (fst (buildDependencyGraph r h t cs opts svc)), lastScanTime := t\<rparr>"
  by (simp add: buildDependencyGraph_def Let_def)

lemma exampleService_eq: "exampleService = \<lparr>cachedGraph = Some exampleGraph, lastScanTime = 1000\<rparr>"
  by (simp add: exampleService_def exampleGraph_def buildDependencyGraph_cache initialService_def)

text \<open>
  Claim C4 (cache freshness). After \<^verbatim>\<open>buildDependencyGraph\<close> ran at time \<open>t\<close>,
  \<^verbatim>\<open>getCachedGraph(maxAge)\<close> called at time \<open>now\<close> returns the graph that build
  returned when \<open>now - t \<le> maxAge\<close> and null when \<open>now - t > maxAge\<close>; it returns null
  on a service that never built a graph and after \<^verbatim>\<open>invalidateCache()\<close>.
\<close>

theorem cache_freshness:
  "(now - t \<le> maxAge \<longrightarrow>
      getCachedGraph maxAge now (snd (buildDependencyGraph r h t cs opts svc))
        = Some (fst (buildDependencyGraph r h t cs opts svc))) \<and>
   (now - t > maxAge \<longrightarrow>
      getCachedGraph maxAge now (snd (buildDependencyGraph r h t cs opts svc)) = None) \<and>
   getCachedGraph maxAge now initialService = None \<and>
   getCachedGraph maxAge now (invalidateCache svc) = None"
  by (simp add: buildDependencyGraph_cache getCachedGraph_def initialService_def invalidateCache_def)

text \<open>
  Claim C4, witness: the graph built at time 1000 is returned at time 1500, is stale at
  time 70000, and is gone after an invalidation.
\<close>

theorem cache_freshness_witness:
  "(1500::int) - 1000 \<le> 60000 \<and> (70000::int) - 1000 > 60000 \<and>
   getCachedGraph 60000 1500 exampleService = Some exampleGraph \<and>
   getCachedGraph 60000 70000 exampleService = None \<and>
   getCachedGraph 60000 1500 (invalidateCache exampleService) = None"
  using cache_freshness [of 1500 1000 60000 chainResolver unreadableHost chainContracts noImports initialService]
    cache_freshness [of 70000 1000 60000 chainResolver unreadableHost chainContracts noImports initialService]
    cache_freshness [of 1500 1000 60000 chainResolver unreadableHost chainContracts noImports exampleService]
  by (simp add: exampleService_def exampleGraph_def)

section \<open>Queries for unknown names\<close>

text \<open>
  Claim C7 (unknown names). When no node of the graph has the name asked for, both
  \<^verbatim>\<open>getContractDependencies\<close> and \<^verbatim>\<open>getContractDependents\<close> return
  \<^verbatim>\<open>{ direct: [], transitive: [] }\<close>: the early return is taken before any traversal,
  and both functions are total.
\<close>

theorem unknown_name_queries_empty:
  assumes "cn \<notin> set (map (\<lambda>p. name (snd p)) (nodes graph))"
  shows "getContractDependencies graph cn = \<lparr>direct = [], transitive = []\<rparr> \<and>
         getContractDependents graph cn = \<lparr>direct = [], transitive = []\<rparr>"
proof -
  have "find (\<lambda>n. name n = cn) (map snd (nodes graph)) = None"
    using assms by (auto simp: find_None_iff)
  then show ?thesis
    by (simp add: getContractDependencies_def getContractDependents_def)
qed

lemma exampleGraph_names: "map (\<lambda>p. name (snd p)) (nodes exampleGraph) = [''alpha'', ''beta'', ''gamma'']"
  by code_simp

text \<open>
  Claim C7, witness: the name \<^verbatim>\<open>delta\<close> in the graph of the chain alpha, beta, gamma.
\<close>

theorem unknown_name_queries_empty_witness:
  "''delta'' \<notin> set (map (\<lambda>p. name (snd p)) (nodes exampleGraph)) \<and>
   getContractDependencies exampleGraph ''delta'' = \<lparr>direct = [], transitive = []\<rparr> \<and>
   getContractDependents exampleGraph ''delta'' = \<lparr>direct = [], transitive = []\<rparr>"
proof -
  have h: "''delta'' \<notin> set (map (\<lambda>p. name (snd p)) (nodes exampleGraph))"
    by (simp add: exampleGraph_names)
  from unknown_name_queries_empty [OF h] h show ?thesis by simp
qed

section \<open>Refresh\<close>

text \<open>
  Claim C10 (refresh of an empty workspace). When the scan returns no contracts,
  \<^verbatim>\<open>refresh\<close> resolves, publishes no event, keeps the pending changes, and leaves
  the detection service exactly as \<^verbatim>\<open>invalidateCache\<close> left it (no graph was built),
  so \<^verbatim>\<open>getCachedGraph\<close> returns null afterwards.
\<close>

theorem empty_workspace_refresh:
  assumes "scanWorkspace env = Inr []"
  shows "fst (refresh env changeType w) = Inr () \<and>
         published (snd (refresh env changeType w)) = published w \<and>
         pendingChanges (snd (refresh env changeType w)) = pendingChanges w \<and>
         dependencyService (snd (refresh env changeType w)) = invalidateCache (dependencyService w) \<and>
         getCachedGraph maxAge now (dependencyService (snd (refresh env changeType w))) = None"
  using assms
  by (simp add: refresh_def Let_def logLine_def getCachedGraph_def invalidateCache_def)

text \<open>
  Claim C10, witness: a watcher that holds a cached graph and one pending change.
\<close>

theorem empty_workspace_refresh_witness:
  "scanWorkspace emptyScanEnv = Inr [] \<and>
   getCachedGraph 60000 2500 (dependencyService exampleWatcher) = Some exampleGraph \<and>
   fst (refresh emptyScanEnv Modified exampleWatcher) = Inr () \<and>
   published (snd (refresh emptyScanEnv Modified exampleWatcher)) = [] \<and>
   pendingChanges (snd (refresh emptyScanEnv Modified exampleWatcher)) = [''/ws/a/src/lib.rs''] \<and>
   getCachedGraph 60000 2500 (dependencyService (snd (refresh emptyScanEnv Modified exampleWatcher))) = None"
proof -
  have h: "scanWorkspace emptyScanEnv = Inr []" by (simp add: emptyScanEnv_def)
  have c: "getCachedGraph 60000 2500 (dependencyService exampleWatcher) = Some exampleGraph"
    by (simp add: exampleWatcher_def exampleService_eq getCachedGraph_def)
  have p: "published exampleWatcher = []" "pendingChanges exampleWatcher = [''/ws/a/src/lib.rs'']"
    by (simp_all add: exampleWatcher_def)
  from empty_workspace_refresh [OF h, of Modified exampleWatcher 60000 2500, unfolded p] h c
  show ?thesis by blast
qed

text \<open>
  Claim C1, as stated, fails: the watcher below holds a cached graph that
  \<^verbatim>\<open>getCachedGraph\<close> returns at time 2500; after a debounced refresh whose scan throws,
  the same call returns null.
\<close>

theorem failed_debounced_refresh_counterexample:
  "getCachedGraph 60000 2500 (dependencyService exampleWatcher) = Some exampleGraph \<and>
   getCachedGraph 60000 2500
     (dependencyService (debouncedRefresh failingScanEnv Modified exampleWatcher)) = None"
  by (simp add: debouncedRefresh_def refresh_def Let_def logLine_def failingScanEnv_def
      exampleWatcher_def exampleWatcherOptions_def exampleService_eq getCachedGraph_def
      invalidateCache_def)

text \<open>
  Claim C1, amended. When the scan throws inside a debounced refresh, the rejection is
  caught: three lines are logged, nothing is published and the pending changes are kept.
  The cache is not kept: \<^verbatim>\<open>refresh\<close> invalidates it before it scans, so the service
  is left as \<^verbatim>\<open>invalidateCache\<close> left it and \<^verbatim>\<open>getCachedGraph\<close> returns null.
\<close>

theorem failed_debounced_refresh:
  assumes "scanWorkspace env = Inl err" and "autoRefresh (watcherOptions w)"
  shows "outputLines (debouncedRefresh env changeType w) =
           outputLines w @
             [''[DependencyWatcher] Refreshing dependency graph...'',
              ''[DependencyWatcher] Failed to refresh: '' @ errorToString err,
              ''[DependencyWatcher] Auto-refresh failed: '' @ errorToString err] \<and>
         published (debouncedRefresh env changeType w) = published w \<and>
         pendingChanges (debouncedRefresh env changeType w) = pendingChanges w \<and>
         dependencyService (debouncedRefresh env changeType w) = invalidateCache (dependencyService w) \<and>
         getCachedGraph maxAge now (dependencyService (debouncedRefresh env changeType w)) = None"
  using assms
  by (simp add: debouncedRefresh_def refresh_def Let_def logLine_def getCachedGraph_def invalidateCache_def)

text \<open>
  Claim C1, witness of the amended statement.
\<close>

theorem failed_debounced_refresh_witness:
  "scanWorkspace failingScanEnv = Inl (Error ''scan failed'') \<and>
   autoRefresh (watcherOptions exampleWatcher) \<and>
   outputLines (debouncedRefresh failingScanEnv Modified exampleWatcher) =
     [''[DependencyWatcher] Refreshing dependency graph...'',
      ''[DependencyWatcher] Failed to refresh: Error: scan failed'',
      ''[DependencyWatcher] Auto-refresh failed: Error: scan failed''] \<and>
   pendingChanges (debouncedRefresh failingScanEnv Modified exampleWatcher) = [''/ws/a/src/lib.rs''] \<and>
   getCachedGraph 60000 2500
     (dependencyService (debouncedRefresh failingScanEnv Modified exampleWatcher)) = None"
proof -
  have h1: "scanWorkspace failingScanEnv = Inl (Error ''scan failed'')"
    by (simp add: failingScanEnv_def)
  have h2: "autoRefresh (watcherOptions exampleWatcher)"
    by (simp add: exampleWatcher_def exampleWatcherOptions_def)
  have p: "outputLines exampleWatcher = []" "pendingChanges exampleWatcher = [''/ws/a/src/lib.rs'']"
    by (simp_all add: exampleWatcher_def)
  have e: "errorToString (Error ''scan failed'') = ''Error: scan failed''"
    by (simp add: errorToString_def)
  from failed_debounced_refresh [OF h1 h2, of Modified 60000 2500, unfolded p e, simplified] h1 h2
  show ?thesis by blast
qed

section \<open>Statistics\<close>

lemma statistics_cycle_count_constant:
  "circularDependencies (statistics (fst (buildDependencyGraph r host t contracts opts svc))) = 0"
  by (simp add: buildDependencyGraph_def Let_def calculateStatistics_def)

lemma graph_cycles_from_resolver:
  "cycles (fst (buildDependencyGraph r host t contracts opts svc)) =
     resCycles (r contracts (includeDevDependencies opts))"
  by (simp add: buildDependencyGraph_def Let_def)

text \<open>
  Claim C2 (cycle count in the statistics). \<^verbatim>\<open>calculateStatistics\<close> writes
  \<^verbatim>\<open>circularDependencies: 0\<close> with the comment that the caller will set it, and
  \<^verbatim>\<open>buildDependencyGraph\<close> never does: for two contracts that depend on each other,
  with one cycle reported by the resolver, the statistics still say 0.
\<close>

theorem statistics_cycle_count_is_zero:
  "circularDependencies (statistics (fst (buildDependencyGraph cycleResolver unreadableHost 1000
       cycleContracts noImports initialService))) = 0 \<and>
   length (cycles (fst (buildDependencyGraph cycleResolver unreadableHost 1000
       cycleContracts noImports initialService))) = 1"
  by (simp add: buildDependencyGraph_def Let_def calculateStatistics_def cycleResolver_def)

end
